theory Spec2Isabelle
  imports Complex_Main "HOL-Library.Word" "HOL-Library.Log_Nat"
begin

unbundle bit_operations_syntax

section \<open>The language primitives the protocol code relies on\<close>

text \<open>
  The transfer protocol of \<^verbatim>\<open>src/App.tsx\<close> is written against a handful of JavaScript
  built-ins. Each is modelled here as an executable HOL function.

  Strings are lists of 8-bit code units; code units above 255 are outside the model (they
  matter only for the exotic white space that \<^verbatim>\<open>parseInt\<close> skips). Byte counts and offsets
  are \<open>nat\<close>: a JavaScript number holds every integer of magnitude below \<open>2 ^ 53\<close> exactly,
  and the model is exact for file sizes below that bound. The PIN and the key derived from
  it are JavaScript numbers, modelled as such: \<^verbatim>\<open>parseInt\<close> rounds a long numeral to the
  nearest double and overflows to \<^verbatim>\<open>Infinity\<close>, and \<^verbatim>\<open>%\<close> then yields \<^verbatim>\<open>NaN\<close>.
\<close>

type_synonym byte = "8 word"

subsection \<open>\<^verbatim>\<open>String.prototype.split\<close> with a one-character separator\<close>

fun split_on :: "char \<Rightarrow> string \<Rightarrow> string list" where
  "split_on c [] = [[]]"
| "split_on c (x # xs) =
     (if x = c then [] # split_on c xs
      else (case split_on c xs of
              [] \<Rightarrow> [[x]]
            | s # ss \<Rightarrow> (x # s) # ss))"

subsection \<open>Numbers\<close>

text \<open>
  A JavaScript number is a double: a finite value, an infinity, or \<^verbatim>\<open>NaN\<close>. A finite
  double is modelled by the rational it denotes. The two zeros are one value here: no
  operation that the protocol applies to a zero tells them apart (both are falsy, and
  both convert to the integer 0).
\<close>

datatype number = Num rat | PosInfinity | NegInfinity | NaN

text \<open>
  An arithmetic operation rounds its exact result to the nearest double, ties to the even
  significand. \<open>fl\<close> is that rounding on the rationals, with a 53-bit significand and an
  unbounded exponent. It is the rounding of binary64 wherever the result is in the normal
  range: for the quotients of byte counts below \<open>2 ^ 53\<close> and their products with 100 in
  the progress percentage \<^verbatim>\<open>Math.round((received / size) * 100)\<close>, and for integers below
  \<open>2 ^ 1024\<close>.
\<close>

definition binexp :: "rat \<Rightarrow> int" where
  \<comment> \<open>for \<open>x > 0\<close>, the \<open>e\<close> with \<open>2 ^ e \<le> x < 2 ^ (e + 1)\<close>\<close>
  "binexp x =
     (let (p, q) = quotient_of x;
          d = bitlen p - bitlen q
      in if power_int 2 d \<le> x then d else d - 1)"

definition round_half_even :: "rat \<Rightarrow> int" where
  "round_half_even x =
     (let f = \<lfloor>x\<rfloor>; r = x - of_int f
      in if r < 1 / 2 then f
         else if 1 / 2 < r then f + 1
         else if even f then f else f + 1)"

definition fl :: "rat \<Rightarrow> rat" where
  "fl x =
     (if x = 0 then 0
      else (let u = power_int 2 (binexp \<bar>x\<bar> - 52)
            in sgn x * of_int (round_half_even (\<bar>x\<bar> / u)) * u))"

definition js_div :: "rat \<Rightarrow> rat \<Rightarrow> rat" where
  "js_div a b = fl (a / b)"

definition js_mul :: "rat \<Rightarrow> rat \<Rightarrow> rat" where
  "js_mul a b = fl (a * b)"

text \<open>
  The number that an integer denotes: the nearest double, and an infinity once the
  rounded magnitude reaches \<open>2 ^ 1024\<close> (the largest double is \<open>2 ^ 1024 - 2 ^ 971\<close>).
\<close>

definition to_number :: "rat \<Rightarrow> number" where
  "to_number x =
     (let y = fl x
      in if 2 ^ 1024 \<le> y then PosInfinity
         else if y \<le> - (2 ^ 1024) then NegInfinity
         else Num y)"

text \<open>\<^verbatim>\<open>Math.round\<close>: the nearest integer, a tie going up.\<close>

definition Math_round :: "rat \<Rightarrow> int" where
  "Math_round x = \<lfloor>x + 1 / 2\<rfloor>"

subsection \<open>\<^verbatim>\<open>parseInt\<close> without a radix argument\<close>

text \<open>
  \<^verbatim>\<open>parseInt(s)\<close> skips leading white space, reads an optional sign, switches to radix 16
  after a \<^verbatim>\<open>0x\<close> or \<^verbatim>\<open>0X\<close> prefix, and then reads the longest run of digits of the radix.
  With no digit the result is \<^verbatim>\<open>NaN\<close>; otherwise it is the number that the signed integer
  written by the digits denotes.
\<close>

definition is_js_space :: "char \<Rightarrow> bool" where
  "is_js_space c \<longleftrightarrow> c \<in> set [CHR 0x09, CHR 0x0A, CHR 0x0B, CHR 0x0C, CHR 0x0D, CHR 0x20, CHR 0xA0]"

definition digit_value :: "nat \<Rightarrow> char \<Rightarrow> nat option" where
  "digit_value radix c =
     (let n = of_char c :: nat;
          v = (if 48 \<le> n \<and> n \<le> 57 then Some (n - 48)
               else if 97 \<le> n \<and> n \<le> 122 then Some (n - 87)
               else if 65 \<le> n \<and> n \<le> 90 then Some (n - 55)
               else None)
      in case v of
           None \<Rightarrow> None
         | Some d \<Rightarrow> if d < radix then Some d else None)"

fun digits_value :: "nat \<Rightarrow> int \<Rightarrow> string \<Rightarrow> int" where
  "digits_value radix acc [] = acc"
| "digits_value radix acc (c # cs) =
     (case digit_value radix c of
        None \<Rightarrow> acc
      | Some d \<Rightarrow> digits_value radix (acc * int radix + int d) cs)"

definition parse_digits :: "nat \<Rightarrow> string \<Rightarrow> int option" where
  "parse_digits radix s =
     (let z = takeWhile (\<lambda>c. digit_value radix c \<noteq> None) s
      in if z = [] then None else Some (digits_value radix 0 z))"

definition parse_unsigned :: "string \<Rightarrow> int option" where
  "parse_unsigned s =
     (case s of
        c # x # r \<Rightarrow>
          if c = CHR ''0'' \<and> (x = CHR ''x'' \<or> x = CHR ''X'')
          then parse_digits 16 r
          else parse_digits 10 s
      | _ \<Rightarrow> parse_digits 10 s)"

definition parse_signed :: "string \<Rightarrow> int option" where
  "parse_signed s =
     (case s of
        c # r \<Rightarrow>
          if c = CHR ''-'' then map_option uminus (parse_unsigned r)
          else if c = CHR ''+'' then parse_unsigned r
          else parse_unsigned s
      | [] \<Rightarrow> None)"

definition parseInt :: "string \<Rightarrow> number" where
  "parseInt s =
     (case parse_signed (dropWhile is_js_space s) of
        None \<Rightarrow> NaN
      | Some n \<Rightarrow> to_number (of_int n))"

subsection \<open>The operators \<^verbatim>\<open>||\<close>, \<^verbatim>\<open>%\<close> and \<^verbatim>\<open>^\<close> on numbers\<close>

text \<open>\<^verbatim>\<open>a || b\<close> is \<^verbatim>\<open>a\<close> unless \<^verbatim>\<open>a\<close> is falsy; the falsy numbers are 0 and \<^verbatim>\<open>NaN\<close>.\<close>

definition truthy :: "number \<Rightarrow> bool" where
  "truthy x = (case x of Num q \<Rightarrow> q \<noteq> 0 | NaN \<Rightarrow> False | _ \<Rightarrow> True)"

definition js_or :: "number \<Rightarrow> number \<Rightarrow> number" where
  "js_or a b = (if truthy a then a else b)"

text \<open>
  \<^verbatim>\<open>n % d\<close> is \<^verbatim>\<open>NaN\<close> when \<^verbatim>\<open>n\<close> is not finite or \<^verbatim>\<open>d\<close> is 0 or \<^verbatim>\<open>NaN\<close>, and \<^verbatim>\<open>n\<close> when \<^verbatim>\<open>d\<close> is
  infinite. Otherwise it is the remainder of the truncating division, which has the sign
  of the dividend (\<^verbatim>\<open>-5 % 256\<close> is \<^verbatim>\<open>-5\<close>) and is a double without rounding.
\<close>

definition js_rem :: "number \<Rightarrow> number \<Rightarrow> number" where
  "js_rem n d =
     (case n of
        Num x \<Rightarrow>
          (case d of
             Num y \<Rightarrow>
               if y = 0 then NaN
               else Num (sgn x * (\<bar>x\<bar> - \<bar>y\<bar> * of_int \<lfloor>\<bar>x\<bar> / \<bar>y\<bar>\<rfloor>))
           | NaN \<Rightarrow> NaN
           | _ \<Rightarrow> Num x)
      | _ \<Rightarrow> NaN)"

text \<open>
  The bitwise operators convert their operands with \<^verbatim>\<open>ToInt32\<close>: \<^verbatim>\<open>NaN\<close> and the infinities
  become 0, a finite number is truncated toward zero and reduced modulo \<open>2 ^ 32\<close> into the
  signed range.
\<close>

definition ToInt32 :: "number \<Rightarrow> int" where
  "ToInt32 x =
     (case x of
        Num q \<Rightarrow>
          (let i = (if 0 \<le> q then \<lfloor>q\<rfloor> else \<lceil>q\<rceil>);
               m = i mod 2 ^ 32
           in if 2 ^ 31 \<le> m then m - 2 ^ 32 else m)
      | _ \<Rightarrow> 0)"

subsection \<open>The decimal text of a non-negative integer\<close>

text \<open>What a template literal makes of an integer below \<open>10 ^ 21\<close>.\<close>

fun decimal :: "nat \<Rightarrow> string" where
  "decimal n =
     (if n < 10 then [char_of (48 + n)]
      else decimal (n div 10) @ [char_of (48 + n mod 10)])"

declare decimal.simps [simp del]

subsection \<open>\<^verbatim>\<open>Blob.prototype.slice\<close> with non-negative bounds\<close>

definition blob_slice :: "byte list \<Rightarrow> nat \<Rightarrow> nat \<Rightarrow> byte list" where
  "blob_slice content start end' =
     (let size = length content;
          relativeStart = min start size;
          relativeEnd = min end' size;
          span = relativeEnd - relativeStart
      in take span (drop relativeStart content))"

section \<open>Constants\<close>

definition CHUNK_SIZE :: nat where
  "CHUNK_SIZE = 16 * 1024"

definition SELF_DESTRUCT_SEC :: int where
  "SELF_DESTRUCT_SEC = 300"

section \<open>Room code, key and obfuscation\<close>

text \<open>
  \<^verbatim>\<open>generateCode\<close> draws six characters and a PIN between 1000 and 9999; the draws are the
  arguments here. The sender's share code is always built by it.
\<close>

definition code_chars :: string where
  "code_chars = ''abcdefghjkmnpqrstuvwxyz23456789''"

definition generateCode :: "string \<Rightarrow> nat \<Rightarrow> string" where
  "generateCode str pin' = take 3 str @ ''-'' @ take 3 (drop 3 str) @ ''#'' @ decimal pin'"

text \<open>
  Sender (\<^verbatim>\<open>sendChunk\<close>) and receiver (\<^verbatim>\<open>handleConnectReceiver\<close>) contain the same three
  lines: the PIN text is the second \<^verbatim>\<open>#\<close>-separated segment of the code, or \<^verbatim>\<open>"0"\<close> when that
  segment is absent or empty; the PIN is its \<^verbatim>\<open>parseInt\<close>, or 1024 when that is \<^verbatim>\<open>NaN\<close> or 0;
  every byte is xor-ed with \<^verbatim>\<open>pin % 256\<close> and stored back into the \<^verbatim>\<open>Uint8Array\<close>, which keeps
  the low eight bits.
\<close>

definition pinStr :: "string \<Rightarrow> string" where
  "pinStr code =
     (case split_on (CHR ''#'') code of
        _ # s # _ \<Rightarrow> if s = [] then ''0'' else s
      | _ \<Rightarrow> ''0'')"

definition pin :: "string \<Rightarrow> number" where
  "pin code = js_or (parseInt (pinStr code)) (Num 1024)"

definition sender_key :: "string \<Rightarrow> number" where
  "sender_key shareCode = js_rem (pin shareCode) (Num 256)"

definition receiver_key :: "string \<Rightarrow> number" where
  "receiver_key receiveCode = js_rem (pin receiveCode) (Num 256)"

definition xor_scramble :: "number \<Rightarrow> byte list \<Rightarrow> byte list" where
  "xor_scramble k scrambled = map (\<lambda>b. word_of_int (uint b XOR ToInt32 k)) scrambled"

text \<open>A key that is an integer between 0 and 255.\<close>

definition key_in_byte_range :: "number \<Rightarrow> bool" where
  "key_in_byte_range k =
     (case k of
        Num q \<Rightarrow> of_int \<lfloor>q\<rfloor> = q \<and> 0 \<le> q \<and> q \<le> 255
      | _ \<Rightarrow> False)"

text \<open>
  The room-code format: three characters of \<^verbatim>\<open>[a-z0-9]\<close>, a dash, three more, \<^verbatim>\<open>#\<close>, and
  four decimal digits. Every code that \<^verbatim>\<open>generateCode\<close> builds has this shape.
\<close>

definition is_code_char :: "char \<Rightarrow> bool" where
  "is_code_char c \<longleftrightarrow>
     (let n = of_char c :: nat in (97 \<le> n \<and> n \<le> 122) \<or> (48 \<le> n \<and> n \<le> 57))"

definition is_dec_digit :: "char \<Rightarrow> bool" where
  "is_dec_digit c \<longleftrightarrow> (let n = of_char c :: nat in 48 \<le> n \<and> n \<le> 57)"

definition valid_room_code :: "string \<Rightarrow> bool" where
  "valid_room_code code \<longleftrightarrow>
     length code = 12 \<and>
     list_all is_code_char (take 3 code) \<and>
     code ! 3 = CHR ''-'' \<and>
     list_all is_code_char (take 3 (drop 4 code)) \<and>
     code ! 7 = CHR ''#'' \<and>
     list_all is_dec_digit (drop 8 code)"

section \<open>Application state\<close>

datatype mode = Idle | Send | Receive

type_synonym conn = nat

record shared_file =
  file_name :: string
  file_content :: "byte list"
  file_type :: string

definition file_size :: "shared_file \<Rightarrow> nat" where
  "file_size f = length (file_content f)"

record file_meta =
  meta_name :: string
  meta_size :: nat
  meta_type :: string

text \<open>A completed download: the blob is modelled by its byte content.\<close>

record completed =
  blob :: "byte list"
  completed_name :: string
  completed_type :: string

datatype chat_sender = Me | Peer

text \<open>The messages of the data channel, by their \<^verbatim>\<open>type\<close> field.\<close>

datatype msg =
    RequestMetadata
  | Metadata string nat string
  | RequestChunk nat
  | Chunk "byte list option" nat
  | Chat string

text \<open>
  The state and refs of the \<^verbatim>\<open>App\<close> component that the protocol code reads and writes,
  followed by the two pieces of the environment it acts on: the connections whose \<^verbatim>\<open>open\<close>
  flag is set, and the browser's table of running intervals. A state setter is modelled
  as an immediate update; where a handler reads a state variable through its closure,
  the captured value is an explicit argument.
\<close>

record app =
  mode :: mode
  peerRef :: bool
  connRef :: "conn option"
  multiConnsRef :: "conn list"
  peerCount :: nat
  isConnected :: bool
  errorStatus :: "string option"
  fileToShareRef :: "shared_file option"
  transferProgress :: int
  fileMeta :: "file_meta option"
  fileMetaRef :: "file_meta option"
  receivedChunksRef :: "byte list list"
  receivedBytesRef :: nat
  completedFile :: "completed option"
  chatMessages :: "(string \<times> chat_sender) list"
  connTime :: nat
  selfDestructSec :: int
  selfDestructRef :: "nat option"
  sessionTransfers :: nat
  connsOpen :: "conn list"
  intervals :: "nat list"
  nextInterval :: nat

definition setInterval :: "app \<Rightarrow> nat \<times> app" where
  "setInterval a =
     (nextInterval a, a\<lparr>intervals := nextInterval a # intervals a, nextInterval := Suc (nextInterval a)\<rparr>)"

definition clearInterval :: "nat \<Rightarrow> app \<Rightarrow> app" where
  "clearInterval t a = a\<lparr>intervals := removeAll t (intervals a)\<rparr>"

definition conn_close :: "conn \<Rightarrow> app \<Rightarrow> app" where
  "conn_close c a = a\<lparr>connsOpen := removeAll c (connsOpen a)\<rparr>"

definition conn_open :: "conn \<Rightarrow> app \<Rightarrow> bool" where
  "conn_open c a \<longleftrightarrow> c \<in> set (connsOpen a)"

section \<open>Teardown\<close>

text \<open>
  \<^verbatim>\<open>resetConnection\<close>: close the current connection, destroy the peer (which closes every
  connection of the peer), clear the session state, close the room's connections and
  cancel the self-destruct interval.
\<close>

definition resetConnection :: "app \<Rightarrow> app" where
  "resetConnection a =
     (let a1 = (case connRef a of
                  Some c \<Rightarrow> (conn_close c a)\<lparr>connRef := None\<rparr>
                | None \<Rightarrow> a);
          a2 = (if peerRef a1 then a1\<lparr>connsOpen := [], peerRef := False\<rparr> else a1);
          a3 = a2\<lparr>isConnected := False,
                  transferProgress := - 1,
                  fileMeta := None,
                  fileMetaRef := None,
                  receivedChunksRef := [],
                  receivedBytesRef := 0,
                  completedFile := None,
                  chatMessages := [],
                  errorStatus := None,
                  connTime := 0,
                  selfDestructSec := 0,
                  peerCount := 0\<rparr>;
          a4 = (fold conn_close (multiConnsRef a3) a3)\<lparr>multiConnsRef := []\<rparr>
      in case selfDestructRef a4 of
           Some t \<Rightarrow> (clearInterval t a4)\<lparr>selfDestructRef := None\<rparr>
         | None \<Rightarrow> a4)"

text \<open>The connections that are still open after \<open>resetConnection\<close>.\<close>

definition reset_conns :: "app \<Rightarrow> conn list" where
  "reset_conns a =
     filter (\<lambda>c. c \<notin> set (multiConnsRef a))
       (if peerRef a then []
        else (case connRef a of Some c \<Rightarrow> removeAll c (connsOpen a) | None \<Rightarrow> connsOpen a))"

section \<open>Sender\<close>

text \<open>
  \<^verbatim>\<open>sendChunk\<close>. The chunk size is a parameter, instantiated with \<open>CHUNK_SIZE\<close> by the
  program. The result lists the messages sent, each with the connection it is sent on.
  The percentage is used only where \<^verbatim>\<open>end\<close> differs from the file size.
\<close>

definition percent :: "nat \<Rightarrow> nat \<Rightarrow> int" where
  \<comment> \<open>\<^verbatim>\<open>Math.round((part / whole) * 100)\<close>\<close>
  "percent part whole = Math_round (js_mul (js_div (of_nat part) (of_nat whole)) 100)"

definition sendChunk :: "nat \<Rightarrow> string \<Rightarrow> nat \<Rightarrow> conn option \<Rightarrow> app \<Rightarrow> app \<times> (conn \<times> msg) list" where
  "sendChunk chunk_size shareCode offset targetConn a =
     (case fileToShareRef a of
        None \<Rightarrow> (a, [])
      | Some f \<Rightarrow>
          (case (case targetConn of Some c \<Rightarrow> Some c | None \<Rightarrow> connRef a) of
             None \<Rightarrow> (a, [])
           | Some conn \<Rightarrow>
               (let end' = min (offset + chunk_size) (file_size f);
                    buffer = blob_slice (file_content f) offset end';
                    scrambled = xor_scramble (sender_key shareCode) buffer;
                    progress = percent end' (file_size f)
                in (a\<lparr>transferProgress :=
                         (if end' = file_size f then 100 else min 99 progress)\<rparr>,
                    [(conn, Chunk (Some scrambled) offset)]))))"

text \<open>The sender's \<^verbatim>\<open>data\<close> handler of a connection \<open>conn\<close> (in \<^verbatim>\<open>initSender\<close>).\<close>

definition sender_on_data :: "nat \<Rightarrow> string \<Rightarrow> conn \<Rightarrow> msg \<Rightarrow> app \<Rightarrow> app \<times> (conn \<times> msg) list" where
  "sender_on_data chunk_size shareCode conn data a =
     (case data of
        RequestMetadata \<Rightarrow>
          (case fileToShareRef a of
             Some f \<Rightarrow> (a, [(conn, Metadata (file_name f) (file_size f) (file_type f))])
           | None \<Rightarrow> (a, []))
      | RequestChunk offset \<Rightarrow> sendChunk chunk_size shareCode offset (Some conn) a
      | Chat text \<Rightarrow> (a\<lparr>chatMessages := chatMessages a @ [(text, Peer)]\<rparr>, [])
      | _ \<Rightarrow> (a, []))"

section \<open>Receiver\<close>

text \<open>
  \<^verbatim>\<open>handleConnectReceiver\<close> up to the creation of the peer; the handlers it registers
  follow. Those handlers are closures of the render in which the form was submitted, so
  the \<^verbatim>\<open>receiveCode\<close> and the \<^verbatim>\<open>transferProgress\<close> they read are the values of that render.
\<close>

definition handleConnectReceiver :: "string \<Rightarrow> app \<Rightarrow> app" where
  "handleConnectReceiver receiveCode a =
     (if receiveCode = [] then a
      else (resetConnection a)\<lparr>errorStatus := None, transferProgress := 0, peerRef := True\<rparr>)"

text \<open>The connect form is rendered only in this state.\<close>

definition connect_form_shown :: "app \<Rightarrow> bool" where
  "connect_form_shown a \<longleftrightarrow> \<not> isConnected a \<and> transferProgress a = - 1"

text \<open>The peer is open: the connection is created and stored.\<close>

definition receiver_peer_open :: "conn \<Rightarrow> app \<Rightarrow> app" where
  "receiver_peer_open conn a = a\<lparr>connRef := Some conn\<rparr>"

text \<open>
  The \<^verbatim>\<open>open\<close> event of the connection, whose \<^verbatim>\<open>open\<close> flag is set from now on: the
  handshake interval starts. Its identifier is a local constant of the handler, returned
  here.
\<close>

definition receiver_conn_open :: "conn \<Rightarrow> app \<Rightarrow> nat \<times> app" where
  "receiver_conn_open conn a =
     setInterval (a\<lparr>connsOpen := conn # connsOpen a, isConnected := True\<rparr>)"

text \<open>One firing of the handshake interval, every 500 ms.\<close>

definition handshake_tick :: "conn \<Rightarrow> nat \<Rightarrow> app \<Rightarrow> app \<times> msg list" where
  "handshake_tick conn handshakeInterval a =
     (if fileMetaRef a \<noteq> None \<or> \<not> conn_open conn a
      then (clearInterval handshakeInterval a, [])
      else (a, [RequestMetadata]))"

definition finalizeDownload :: "string \<Rightarrow> string \<Rightarrow> app \<Rightarrow> app" where
  "finalizeDownload name type' a =
     a\<lparr>completedFile :=
         Some \<lparr>blob = concat (receivedChunksRef a), completed_name = name, completed_type = type'\<rparr>,
       transferProgress := 100,
       sessionTransfers := Suc (sessionTransfers a)\<rparr>"

text \<open>
  The receiver's \<^verbatim>\<open>data\<close> handler. An exception thrown inside the \<^verbatim>\<open>try\<close> block leaves the
  state as it was and sets the error notice.
\<close>

definition receiver_on_data :: "string \<Rightarrow> msg \<Rightarrow> app \<Rightarrow> app \<times> msg list" where
  "receiver_on_data receiveCode data a =
     (case data of
        Metadata n s mime \<Rightarrow>
          (if fileMetaRef a = None
           then (let meta = \<lparr>meta_name = n, meta_size = s, meta_type = mime\<rparr>
                 in (a\<lparr>fileMeta := Some meta,
                       fileMetaRef := Some meta,
                       receivedChunksRef := [],
                       receivedBytesRef := 0,
                       transferProgress := 0\<rparr>,
                     [RequestChunk 0]))
           else (a, []))
      | Chunk buffer offset \<Rightarrow>
          (case buffer of
             None \<Rightarrow>
               (a\<lparr>errorStatus := Some (''Data parsing error: '' @ ''Empty buffer received.'')\<rparr>, [])
           | Some buf \<Rightarrow>
               (let scrambled = xor_scramble (receiver_key receiveCode) buf;
                    byteLength = length scrambled
                in if byteLength = 0
                   then (a\<lparr>errorStatus :=
                            Some (''Data parsing error: '' @ ''Received chunk has zero length.'')\<rparr>, [])
                   else (let a1 = a\<lparr>receivedChunksRef := receivedChunksRef a @ [scrambled],
                                     receivedBytesRef := receivedBytesRef a + byteLength\<rparr>
                         in case fileMetaRef a1 of
                              None \<Rightarrow> (a1, [])
                            | Some meta \<Rightarrow>
                                (let progress = percent (receivedBytesRef a1) (meta_size meta)
                                 in if receivedBytesRef a1 < meta_size meta
                                    then (a1\<lparr>transferProgress := min 99 progress\<rparr>,
                                          [RequestChunk (receivedBytesRef a1)])
                                    else (finalizeDownload (meta_name meta) (meta_type meta)
                                            (a1\<lparr>transferProgress := 100\<rparr>), [])))))
      | Chat text \<Rightarrow> (a\<lparr>chatMessages := chatMessages a @ [(text, Peer)]\<rparr>, [])
      | _ \<Rightarrow> (a, []))"

text \<open>
  The receiver's \<^verbatim>\<open>close\<close> handler. The \<^verbatim>\<open>transferProgress\<close> it tests is the one captured
  by the closure.
\<close>

definition receiver_on_close :: "int \<Rightarrow> app \<Rightarrow> app" where
  "receiver_on_close captured_transferProgress a =
     (let a1 = (if captured_transferProgress < 100 \<and> captured_transferProgress > 0
                then a\<lparr>errorStatus := Some ''Connection closed unexpectedly.''\<rparr>
                else a)
      in a1\<lparr>isConnected := False\<rparr>)"

text \<open>
  Two more places register a receiver on a connection: the effect that joins the room
  named in the page's URL, and \<^verbatim>\<open>connectToDevice\<close>. Their \<^verbatim>\<open>data\<close> handlers repeat the one
  above, with the room code they were given, except that neither rejects a chunk of
  length zero (and the first words of the error notice differ).
\<close>

definition autojoin_on_data :: "string \<Rightarrow> msg \<Rightarrow> app \<Rightarrow> app \<times> msg list" where
  "autojoin_on_data roomCode data a =
     (case data of
        Metadata n s mime \<Rightarrow>
          (if fileMetaRef a = None
           then (let meta = \<lparr>meta_name = n, meta_size = s, meta_type = mime\<rparr>
                 in (a\<lparr>fileMeta := Some meta,
                       fileMetaRef := Some meta,
                       receivedChunksRef := [],
                       receivedBytesRef := 0,
                       transferProgress := 0\<rparr>,
                     [RequestChunk 0]))
           else (a, []))
      | Chunk buffer offset \<Rightarrow>
          (case buffer of
             None \<Rightarrow> (a\<lparr>errorStatus := Some (''Data error: '' @ ''Empty buffer'')\<rparr>, [])
           | Some buf \<Rightarrow>
               (let scrambled = xor_scramble (receiver_key roomCode) buf;
                    a1 = a\<lparr>receivedChunksRef := receivedChunksRef a @ [scrambled],
                            receivedBytesRef := receivedBytesRef a + length scrambled\<rparr>
                in case fileMetaRef a1 of
                     None \<Rightarrow> (a1, [])
                   | Some m \<Rightarrow>
                       (let progress = percent (receivedBytesRef a1) (meta_size m)
                        in if receivedBytesRef a1 < meta_size m
                           then (a1\<lparr>transferProgress := min 99 progress\<rparr>,
                                 [RequestChunk (receivedBytesRef a1)])
                           else (finalizeDownload (meta_name m) (meta_type m)
                                   (a1\<lparr>transferProgress := 100\<rparr>), []))))
      | Chat text \<Rightarrow> (a\<lparr>chatMessages := chatMessages a @ [(text, Peer)]\<rparr>, [])
      | _ \<Rightarrow> (a, []))"

definition connectToDevice_on_data :: "string \<Rightarrow> msg \<Rightarrow> app \<Rightarrow> app \<times> msg list" where
  "connectToDevice_on_data code data a =
     (case data of
        Metadata n s mime \<Rightarrow>
          (if fileMetaRef a = None
           then (let meta = \<lparr>meta_name = n, meta_size = s, meta_type = mime\<rparr>
                 in (a\<lparr>fileMeta := Some meta,
                       fileMetaRef := Some meta,
                       receivedChunksRef := [],
                       receivedBytesRef := 0,
                       transferProgress := 0\<rparr>,
                     [RequestChunk 0]))
           else (a, []))
      | Chunk buffer offset \<Rightarrow>
          (case buffer of
             None \<Rightarrow>
               (a\<lparr>errorStatus := Some (''Data parsing error: '' @ ''Empty buffer received.'')\<rparr>, [])
           | Some buf \<Rightarrow>
               (let scrambled = xor_scramble (receiver_key code) buf;
                    byteLength = length scrambled;
                    a1 = a\<lparr>receivedChunksRef := receivedChunksRef a @ [scrambled],
                            receivedBytesRef := receivedBytesRef a + byteLength\<rparr>
                in case fileMetaRef a1 of
                     None \<Rightarrow> (a1, [])
                   | Some meta \<Rightarrow>
                       (let progress = percent (receivedBytesRef a1) (meta_size meta)
                        in if receivedBytesRef a1 < meta_size meta
                           then (a1\<lparr>transferProgress := min 99 progress\<rparr>,
                                 [RequestChunk (receivedBytesRef a1)])
                           else (finalizeDownload (meta_name meta) (meta_type meta)
                                   (a1\<lparr>transferProgress := 100\<rparr>), []))))
      | Chat text \<Rightarrow> (a\<lparr>chatMessages := chatMessages a @ [(text, Peer)]\<rparr>, [])
      | _ \<Rightarrow> (a, []))"

section \<open>Self-destruct\<close>

text \<open>
  The effect with dependencies \<^verbatim>\<open>[transferProgress, isConnected]\<close>: its body, its cleanup, and
  the callback that its interval runs once per second.
\<close>

definition selfDestruct_effect :: "app \<Rightarrow> app" where
  "selfDestruct_effect a =
     (if transferProgress a \<ge> 100 \<and> isConnected a
      then (let (t, a1) = setInterval (a\<lparr>selfDestructSec := SELF_DESTRUCT_SEC\<rparr>)
            in a1\<lparr>selfDestructRef := Some t\<rparr>)
      else a)"

definition selfDestruct_cleanup :: "app \<Rightarrow> app" where
  "selfDestruct_cleanup a =
     (case selfDestructRef a of
        Some t \<Rightarrow> clearInterval t a
      | None \<Rightarrow> a)"

definition selfDestruct_tick :: "app \<Rightarrow> app" where
  "selfDestruct_tick a =
     (if selfDestructSec a \<le> 1
      then (resetConnection a)\<lparr>mode := Idle, selfDestructSec := 0\<rparr>
      else a\<lparr>selfDestructSec := selfDestructSec a - 1\<rparr>)"

text \<open>The cleanup of the effect with dependency \<^verbatim>\<open>[mode]\<close>.\<close>

definition mode_cleanup :: "app \<Rightarrow> app" where
  "mode_cleanup a = (resetConnection a)\<lparr>fileToShareRef := None\<rparr>"

text \<open>
  What React does after an event handler has changed the state from \<open>prev\<close> to \<open>a\<close>: an
  effect whose dependencies differ runs its cleanup and then its body.
\<close>

definition render :: "app \<Rightarrow> app \<Rightarrow> app" where
  "render prev a =
     (let a1 = (if mode a = mode prev then a else mode_cleanup a)
      in if transferProgress a1 = transferProgress prev \<and> isConnected a1 = isConnected prev
         then a1
         else selfDestruct_effect (selfDestruct_cleanup a1))"

text \<open>The browser runs the callback of an interval only while the interval is in its table.\<close>

definition selfDestruct_fire :: "nat \<Rightarrow> app \<Rightarrow> app" where
  "selfDestruct_fire t a = (if t \<in> set (intervals a) then render a (selfDestruct_tick a) else a)"

section \<open>The receiver as an event system\<close>

text \<open>
  Everything that can happen to a receiver once its connection is open: the handshake
  interval fires, a message arrives (only on an open connection), the channel closes, the
  user resets the session, the self-destruct interval fires. \<open>captured\<close> is the
  \<^verbatim>\<open>transferProgress\<close> of the render in which the connect form was submitted.
\<close>

datatype revent = HandshakeTick | Incoming msg | ChannelClosed | UserReset | SelfDestructTick

definition receiver_event ::
  "string \<Rightarrow> int \<Rightarrow> conn \<Rightarrow> nat \<Rightarrow> revent \<Rightarrow> app \<Rightarrow> app \<times> msg list" where
  "receiver_event receiveCode captured conn handshakeInterval ev a =
     (case ev of
        HandshakeTick \<Rightarrow>
          (if handshakeInterval \<in> set (intervals a)
           then handshake_tick conn handshakeInterval a
           else (a, []))
      | Incoming m \<Rightarrow>
          (if conn_open conn a
           then (let (a', out) = receiver_on_data receiveCode m a in (render a a', out))
           else (a, []))
      | ChannelClosed \<Rightarrow> (render a (receiver_on_close captured (conn_close conn a)), [])
      | UserReset \<Rightarrow> (render a (resetConnection a), [])
      | SelfDestructTick \<Rightarrow>
          (case selfDestructRef a of
             Some t \<Rightarrow> (selfDestruct_fire t a, [])
           | None \<Rightarrow> (a, [])))"

fun receiver_trace ::
  "string \<Rightarrow> int \<Rightarrow> conn \<Rightarrow> nat \<Rightarrow> revent list \<Rightarrow> app \<Rightarrow> (revent \<times> msg list) list" where
  "receiver_trace receiveCode captured conn h [] a = []"
| "receiver_trace receiveCode captured conn h (ev # evs) a =
     (let (a', out) = receiver_event receiveCode captured conn h ev a
      in (ev, out) # receiver_trace receiveCode captured conn h evs a')"

fun receiver_after ::
  "string \<Rightarrow> int \<Rightarrow> conn \<Rightarrow> nat \<Rightarrow> revent list \<Rightarrow> app \<Rightarrow> app" where
  "receiver_after receiveCode captured conn h [] a = a"
| "receiver_after receiveCode captured conn h (ev # evs) a =
     receiver_after receiveCode captured conn h evs
       (fst (receiver_event receiveCode captured conn h ev a))"

text \<open>A metadata message that started a transfer: it was answered with the first chunk request.\<close>

fun started_transfer :: "revent \<times> msg list \<Rightarrow> bool" where
  "started_transfer (Incoming (Metadata n s t), out) = (out = [RequestChunk 0])"
| "started_transfer _ = False"

definition awaiting_metadata :: "conn \<Rightarrow> app \<Rightarrow> bool" where
  "awaiting_metadata conn a \<longleftrightarrow> fileMetaRef a = None \<and> conn_open conn a"

text \<open>The receiver from the submission of the connect form to the open connection.\<close>

definition receiver_connected :: "string \<Rightarrow> conn \<Rightarrow> app \<Rightarrow> nat \<times> app" where
  "receiver_connected receiveCode conn a =
     receiver_conn_open conn (receiver_peer_open conn (handleConnectReceiver receiveCode a))"

section \<open>One sender, one receiver, one reliable ordered channel\<close>

text \<open>
  The two ends and the messages in flight in each direction, oldest first, together with
  a log of what each end has sent. \<open>deliver\<close> hands the oldest message in flight to the
  handler of its destination and queues what the handler sends.
\<close>

record config =
  sender :: app
  receiver :: app
  to_sender :: "msg list"
  to_receiver :: "msg list"
  sent_by_receiver :: "msg list"
  sent_by_sender :: "msg list"

definition deliver :: "nat \<Rightarrow> string \<Rightarrow> string \<Rightarrow> conn \<Rightarrow> config \<Rightarrow> config" where
  "deliver chunk_size shareCode receiveCode conn cfg =
     (case to_receiver cfg of
        m # ms \<Rightarrow>
          (let (r, out) = receiver_on_data receiveCode m (receiver cfg)
           in cfg\<lparr>receiver := r,
                  to_receiver := ms,
                  to_sender := to_sender cfg @ out,
                  sent_by_receiver := sent_by_receiver cfg @ out\<rparr>)
      | [] \<Rightarrow>
          (case to_sender cfg of
             m # ms \<Rightarrow>
               (let (s, replies) = sender_on_data chunk_size shareCode conn m (sender cfg);
                    out = map snd (filter (\<lambda>(c, _). c = conn) replies)
                in cfg\<lparr>sender := s,
                       to_sender := ms,
                       to_receiver := out,
                       sent_by_sender := sent_by_sender cfg @ out\<rparr>)
           | [] \<Rightarrow> cfg))"

definition run :: "nat \<Rightarrow> string \<Rightarrow> string \<Rightarrow> conn \<Rightarrow> nat \<Rightarrow> config \<Rightarrow> config" where
  "run chunk_size shareCode receiveCode conn n cfg =
     ((deliver chunk_size shareCode receiveCode conn) ^^ n) cfg"

definition quiescent :: "config \<Rightarrow> bool" where
  "quiescent cfg \<longleftrightarrow> to_sender cfg = [] \<and> to_receiver cfg = []"

text \<open>
  The configuration in which a transfer starts: the sender \<open>s\<close> is listening, the receiver
  has submitted the connect form in state \<open>a\<close>, its connection \<open>rconn\<close> is open and the
  handshake interval has fired for the first time.
\<close>

definition transfer_start :: "app \<Rightarrow> string \<Rightarrow> conn \<Rightarrow> app \<Rightarrow> config" where
  "transfer_start s receiveCode rconn a =
     (let (h, r0) = receiver_connected receiveCode rconn a;
          (r1, out) = handshake_tick rconn h r0
      in \<lparr>sender = s, receiver = r1, to_sender = out, to_receiver = [],
          sent_by_receiver = out, sent_by_sender = []\<rparr>)"

definition requested_offsets :: "config \<Rightarrow> nat list" where
  "requested_offsets cfg =
     concat (map (\<lambda>m. case m of RequestChunk offset \<Rightarrow> [offset] | _ \<Rightarrow> []) (sent_by_receiver cfg))"

definition sent_chunks :: "config \<Rightarrow> byte list list" where
  "sent_chunks cfg =
     concat (map (\<lambda>m. case m of Chunk (Some buf) offset \<Rightarrow> [buf] | _ \<Rightarrow> []) (sent_by_sender cfg))"

section \<open>The state of a freshly mounted application\<close>

text \<open>The initial values of the \<^verbatim>\<open>useState\<close> and \<^verbatim>\<open>useRef\<close> hooks.\<close>

definition initial_app :: app where
  "initial_app =
     \<lparr>mode = Idle,
      peerRef = False,
      connRef = None,
      multiConnsRef = [],
      peerCount = 0,
      isConnected = False,
      errorStatus = None,
      fileToShareRef = None,
      transferProgress = - 1,
      fileMeta = None,
      fileMetaRef = None,
      receivedChunksRef = [],
      receivedBytesRef = 0,
      completedFile = None,
      chatMessages = [],
      connTime = 0,
      selfDestructSec = 0,
      selfDestructRef = None,
      sessionTransfers = 0,
      connsOpen = [],
      intervals = [],
      nextInterval = 0\<rparr>"

section \<open>Invariants\<close>

text \<open>
  What holds of a receiver from the moment its connection \<open>conn\<close> is open and its
  handshake interval \<open>h\<close> runs: the connection is the current one or is closed; the
  handshake interval runs as long as metadata is awaited; the self-destruct interval is
  another interval; \<open>h\<close> is an identifier that has been handed out.
\<close>

definition receiver_inv :: "conn \<Rightarrow> nat \<Rightarrow> app \<Rightarrow> bool" where
  "receiver_inv conn h a \<longleftrightarrow>
     (connRef a = Some conn \<or> \<not> conn_open conn a) \<and>
     (h \<in> set (intervals a) \<or> \<not> awaiting_metadata conn a) \<and>
     selfDestructRef a \<noteq> Some h \<and>
     h < nextInterval a"

section \<open>The phases of a transfer\<close>

text \<open>
  The course a transfer takes between one sender and one receiver, stated on the
  configuration: the handshake request is in flight; the metadata is in flight; the
  request for chunk \<open>k\<close> is in flight; chunk \<open>k\<close> is in flight; the transfer is complete;
  the receiver has rejected an empty chunk. The proofs show that \<open>deliver\<close> takes a
  configuration in one phase to a configuration in the next.
\<close>

datatype phase = Handshake | MetadataSent | Requesting nat | Answering nat | Complete | Rejected

definition chunk_at :: "nat \<Rightarrow> shared_file \<Rightarrow> nat \<Rightarrow> byte list" where
  "chunk_at chunk_size f k = take chunk_size (drop (k * chunk_size) (file_content f))"

definition expected_progress :: "nat \<Rightarrow> nat \<Rightarrow> int" where
  "expected_progress received whole =
     (if received = 0 then 0
      else if received < whole then min 99 (percent received whole)
      else 100)"

definition metadata_of :: "shared_file \<Rightarrow> file_meta" where
  "metadata_of f = \<lparr>meta_name = file_name f, meta_size = file_size f, meta_type = file_type f\<rparr>"

definition metadata_msg :: "shared_file \<Rightarrow> msg" where
  "metadata_msg f = Metadata (file_name f) (file_size f) (file_type f)"

definition chunk_msg :: "nat \<Rightarrow> string \<Rightarrow> shared_file \<Rightarrow> nat \<Rightarrow> msg" where
  "chunk_msg chunk_size code f k =
     Chunk (Some (xor_scramble (sender_key code) (chunk_at chunk_size f k))) (k * chunk_size)"

definition awaiting_reply :: "config \<Rightarrow> bool" where
  "awaiting_reply cfg \<longleftrightarrow>
     fileMetaRef (receiver cfg) = None \<and>
     receivedBytesRef (receiver cfg) = 0 \<and>
     receivedChunksRef (receiver cfg) = [] \<and>
     transferProgress (receiver cfg) = 0 \<and>
     completedFile (receiver cfg) = None \<and>
     errorStatus (receiver cfg) = None \<and>
     sent_by_receiver cfg = [RequestMetadata]"

definition receiving :: "nat \<Rightarrow> string \<Rightarrow> shared_file \<Rightarrow> nat \<Rightarrow> config \<Rightarrow> bool" where
  "receiving chunk_size code f k cfg \<longleftrightarrow>
     (k = 0 \<or> k * chunk_size < file_size f) \<and>
     fileMetaRef (receiver cfg) = Some (metadata_of f) \<and>
     receivedBytesRef (receiver cfg) = k * chunk_size \<and>
     receivedChunksRef (receiver cfg) = map (chunk_at chunk_size f) [0..<k] \<and>
     transferProgress (receiver cfg) = expected_progress (k * chunk_size) (file_size f) \<and>
     completedFile (receiver cfg) = None \<and>
     errorStatus (receiver cfg) = None \<and>
     sent_by_receiver cfg =
       RequestMetadata # map (\<lambda>i. RequestChunk (i * chunk_size)) [0..<Suc k]"

definition in_phase :: "nat \<Rightarrow> string \<Rightarrow> shared_file \<Rightarrow> phase \<Rightarrow> config \<Rightarrow> bool" where
  "in_phase chunk_size code f p cfg \<longleftrightarrow>
     fileToShareRef (sender cfg) = Some f \<and>
     (case p of
        Handshake \<Rightarrow>
          to_sender cfg = [RequestMetadata] \<and> to_receiver cfg = [] \<and>
          awaiting_reply cfg \<and> sent_by_sender cfg = []
      | MetadataSent \<Rightarrow>
          to_sender cfg = [] \<and> to_receiver cfg = [metadata_msg f] \<and>
          awaiting_reply cfg \<and> sent_by_sender cfg = [metadata_msg f]
      | Requesting k \<Rightarrow>
          to_sender cfg = [RequestChunk (k * chunk_size)] \<and> to_receiver cfg = [] \<and>
          receiving chunk_size code f k cfg \<and>
          sent_by_sender cfg = metadata_msg f # map (chunk_msg chunk_size code f) [0..<k]
      | Answering k \<Rightarrow>
          to_sender cfg = [] \<and> to_receiver cfg = [chunk_msg chunk_size code f k] \<and>
          receiving chunk_size code f k cfg \<and>
          sent_by_sender cfg = metadata_msg f # map (chunk_msg chunk_size code f) [0..<Suc k]
      | Complete \<Rightarrow>
          to_sender cfg = [] \<and> to_receiver cfg = [] \<and> 0 < file_size f \<and>
          fileMetaRef (receiver cfg) = Some (metadata_of f) \<and>
          receivedBytesRef (receiver cfg) = file_size f \<and>
          concat (receivedChunksRef (receiver cfg)) = file_content f \<and>
          receivedChunksRef (receiver cfg) =
            map (xor_scramble (receiver_key code)) (sent_chunks cfg) \<and>
          transferProgress (receiver cfg) = 100 \<and>
          completedFile (receiver cfg) =
            Some \<lparr>blob = file_content f, completed_name = file_name f,
                  completed_type = file_type f\<rparr> \<and>
          errorStatus (receiver cfg) = None \<and>
          requested_offsets cfg =
            map (\<lambda>i. i * chunk_size) [0..<(file_size f + chunk_size - 1) div chunk_size]
      | Rejected \<Rightarrow>
          to_sender cfg = [] \<and> to_receiver cfg = [] \<and> file_size f = 0 \<and>
          fileMetaRef (receiver cfg) = Some (metadata_of f) \<and>
          receivedBytesRef (receiver cfg) = 0 \<and>
          receivedChunksRef (receiver cfg) = [] \<and>
          transferProgress (receiver cfg) = 0 \<and>
          completedFile (receiver cfg) = None \<and>
          errorStatus (receiver cfg) =
            Some ''Data parsing error: Received chunk has zero length.'' \<and>
          requested_offsets cfg = [0])"

definition next_phase :: "nat \<Rightarrow> nat \<Rightarrow> phase \<Rightarrow> phase" where
  "next_phase chunk_size whole p =
     (case p of
        Handshake \<Rightarrow> MetadataSent
      | MetadataSent \<Rightarrow> Requesting 0
      | Requesting k \<Rightarrow> Answering k
      | Answering k \<Rightarrow>
          if whole \<le> k * chunk_size then Rejected
          else if Suc k * chunk_size < whole then Requesting (Suc k)
          else Complete
      | Complete \<Rightarrow> Complete
      | Rejected \<Rightarrow> Rejected)"

definition phase_at :: "nat \<Rightarrow> nat \<Rightarrow> nat \<Rightarrow> phase" where
  "phase_at chunk_size whole n = ((next_phase chunk_size whole) ^^ n) Handshake"

section \<open>Rounding is monotone\<close>

lemma bitlen_rat_bounds:
  assumes "0 < p"
  shows "power_int 2 (bitlen p - 1) \<le> (of_int p :: rat)" and "(of_int p :: rat) < power_int 2 (bitlen p)"
proof -
  from bitlen_bounds [OF assms]
  have lo: "2 ^ nat (bitlen p - 1) \<le> p" and hi: "p < 2 ^ nat (bitlen p)" by simp_all
  have pos: "1 \<le> bitlen p"
  proof (rule ccontr)
    assume "\<not> 1 \<le> bitlen p"
    then have "nat (bitlen p) = 0" by simp
    with hi assms show False by simp
  qed
  have "(of_int (2 ^ nat (bitlen p - 1)) :: rat) \<le> of_int p" using lo by (simp only: of_int_le_iff)
  then show "power_int 2 (bitlen p - 1) \<le> (of_int p :: rat)"
    using pos by (simp add: power_int_nonneg_exp)
  have "(of_int p :: rat) < of_int (2 ^ nat (bitlen p))" using hi by (simp only: of_int_less_iff)
  then show "(of_int p :: rat) < power_int 2 (bitlen p)"
    using pos by (simp add: power_int_nonneg_exp)
qed

lemma binexp_bounds:
  assumes "0 < x"
  shows "power_int 2 (binexp x) \<le> x" and "x < power_int 2 (binexp x + 1)"
proof -
  obtain p q where pq: "quotient_of x = (p, q)" by (cases "quotient_of x")
  then have q: "0 < q" and x: "x = of_int p / of_int q"
    by (rule quotient_of_denom_pos, rule quotient_of_div)
  from assms x q have p: "0 < p" by (simp add: zero_less_divide_iff)
  define d where "d = bitlen p - bitlen q"
  note bp = bitlen_rat_bounds [OF p] and bq = bitlen_rat_bounds [OF q]
  have "x < power_int 2 (bitlen p) / power_int 2 (bitlen q - 1)"
    unfolding x using bp(2) bq(1) p q by (intro frac_less) simp_all
  also have "\<dots> = power_int 2 (d + 1)"
    by (simp add: d_def power_int_diff [symmetric] algebra_simps)
  finally have hi: "x < power_int 2 (d + 1)" .
  have "power_int 2 (bitlen p - 1) / power_int 2 (bitlen q) < x"
    unfolding x using bp(1) bq(2) p q by (intro frac_less2) simp_all
  moreover have "power_int 2 (bitlen p - 1) / power_int (2 :: rat) (bitlen q) = power_int 2 (d - 1)"
    by (simp add: d_def power_int_diff [symmetric] algebra_simps)
  ultimately have lo: "power_int 2 (d - 1) < x" by simp
  have e: "binexp x = (if power_int 2 d \<le> x then d else d - 1)"
    by (simp add: binexp_def pq d_def Let_def)
  show "power_int 2 (binexp x) \<le> x" using lo by (simp add: e)
  show "x < power_int 2 (binexp x + 1)" using hi by (auto simp: e)
qed

lemma binexp_mono:
  assumes "0 < x" "x \<le> y"
  shows "binexp x \<le> binexp y"
proof -
  have lt: "power_int (2 :: rat) (binexp x) < power_int 2 (binexp y + 1)"
    using binexp_bounds(1) [OF assms(1)] binexp_bounds(2) [of y] assms by simp
  have "binexp x < binexp y + 1"
  proof (rule ccontr)
    assume "\<not> binexp x < binexp y + 1"
    then have "binexp y + 1 \<le> binexp x" by simp
    then have "power_int (2 :: rat) (binexp y + 1) \<le> power_int 2 (binexp x)"
      by (intro power_int_increasing) simp_all
    with lt show False by simp
  qed
  then show ?thesis by simp
qed

lemma round_half_even_bounds: "\<lfloor>x\<rfloor> \<le> round_half_even x" "round_half_even x \<le> \<lfloor>x\<rfloor> + 1"
  by (simp_all add: round_half_even_def Let_def)

lemma round_half_even_of_int [simp]: "round_half_even (of_int n) = n"
  by (simp add: round_half_even_def)

lemma round_half_even_mono:
  assumes "x \<le> y"
  shows "round_half_even x \<le> round_half_even y"
proof (cases "\<lfloor>x\<rfloor> = \<lfloor>y\<rfloor>")
  case True
  have "x - of_int \<lfloor>x\<rfloor> \<le> y - of_int \<lfloor>y\<rfloor>" using assms True by simp
  then show ?thesis unfolding round_half_even_def Let_def using True by auto
next
  case False
  with assms have "\<lfloor>x\<rfloor> < \<lfloor>y\<rfloor>" by (simp add: floor_mono order.strict_iff_order)
  with round_half_even_bounds(2) [of x] round_half_even_bounds(1) [of y] show ?thesis by linarith
qed

lemma fl_pos_eq:
  "0 < x \<Longrightarrow> fl x = of_int (round_half_even (x / power_int 2 (binexp x - 52))) * power_int 2 (binexp x - 52)"
  by (simp add: fl_def Let_def)

lemma fl_zero [simp]: "fl 0 = 0"
  by (simp add: fl_def)

lemma round_half_even_power2: "round_half_even (2 ^ n) = 2 ^ n"
proof -
  have "round_half_even (of_int (2 ^ n)) = 2 ^ n" by (rule round_half_even_of_int)
  then show ?thesis by simp
qed

lemma fl_pos_bounds:
  assumes "0 < x"
  shows "power_int 2 (binexp x) \<le> fl x" and "fl x \<le> power_int 2 (binexp x + 1)"
proof -
  define u :: rat where "u = power_int 2 (binexp x - 52)"
  have u: "0 < u" by (simp add: u_def)
  have e1: "power_int 2 (binexp x) = 2 ^ 52 * u"
    by (simp add: u_def power_int_diff)
  have e2: "power_int 2 (binexp x + 1) = 2 ^ 53 * u"
    by (simp add: u_def power_int_diff power_int_add)
  have "2 ^ 52 \<le> x / u" using binexp_bounds(1) [OF assms] u by (simp add: e1 pos_le_divide_eq)
  from round_half_even_mono [OF this]
  have lo: "(2 ^ 52 :: int) \<le> round_half_even (x / u)" by (simp only: round_half_even_power2)
  have "x / u \<le> 2 ^ 53" using binexp_bounds(2) [OF assms] u by (simp add: e2 pos_divide_le_eq)
  from round_half_even_mono [OF this]
  have hi: "round_half_even (x / u) \<le> (2 ^ 53 :: int)" by (simp only: round_half_even_power2)
  have f: "fl x = of_int (round_half_even (x / u)) * u"
    using assms by (simp add: fl_pos_eq u_def)
  have "(of_int (2 ^ 52) :: rat) \<le> of_int (round_half_even (x / u))"
    using lo by (simp only: of_int_le_iff)
  then show "power_int 2 (binexp x) \<le> fl x"
    unfolding f e1 using u by (intro mult_right_mono) simp_all
  have "(of_int (round_half_even (x / u)) :: rat) \<le> of_int (2 ^ 53)"
    using hi by (simp only: of_int_le_iff)
  then show "fl x \<le> power_int 2 (binexp x + 1)"
    unfolding f e2 using u by (intro mult_right_mono) simp_all
qed

lemma fl_nonneg: "0 \<le> x \<Longrightarrow> 0 \<le> fl x"
proof (cases "x = 0")
  case False
  assume "0 \<le> x"
  with False have "0 < x" by simp
  from fl_pos_bounds(1) [OF this] show ?thesis
    by (meson zero_le_power_int order_trans zero_le_numeral)
qed simp

lemma fl_mono:
  assumes "0 \<le> x" "x \<le> y"
  shows "fl x \<le> fl y"
proof (cases "x = 0")
  case True
  with assms fl_nonneg [of y] show ?thesis by simp
next
  case False
  with assms have x: "0 < x" and y: "0 < y" by simp_all
  have le: "binexp x \<le> binexp y" by (rule binexp_mono [OF x assms(2)])
  show ?thesis
  proof (cases "binexp x = binexp y")
    case True
    define u :: rat where "u = power_int 2 (binexp x - 52)"
    have u: "0 < u" by (simp add: u_def)
    have "x / u \<le> y / u" using assms(2) u by (simp add: divide_right_mono)
    from round_half_even_mono [OF this]
    have "(of_int (round_half_even (x / u)) :: rat) \<le> of_int (round_half_even (y / u))"
      by (simp only: of_int_le_iff)
    then have "of_int (round_half_even (x / u)) * u \<le> of_int (round_half_even (y / u)) * u"
      using u by (intro mult_right_mono) simp_all
    then show ?thesis using x y True by (simp add: fl_pos_eq u_def)
  next
    case False
    with le have "binexp x + 1 \<le> binexp y" by simp
    then have "power_int (2 :: rat) (binexp x + 1) \<le> power_int 2 (binexp y)"
      by (intro power_int_increasing) simp_all
    with fl_pos_bounds(2) [OF x] fl_pos_bounds(1) [OF y] show ?thesis by linarith
  qed
qed

lemma Math_round_mono: "x \<le> y \<Longrightarrow> Math_round x \<le> Math_round y"
  by (simp add: Math_round_def floor_mono)

lemma percent_mono:
  assumes "b \<le> b'"
  shows "percent b s \<le> percent b' s"
proof -
  have 1: "(of_nat b :: rat) / of_nat s \<le> of_nat b' / of_nat s"
    using assms by (simp add: divide_right_mono)
  have 0: "(0 :: rat) \<le> of_nat b / of_nat s" by simp
  have 2: "fl (of_nat b / of_nat s) \<le> fl (of_nat b' / of_nat s)" by (rule fl_mono [OF 0 1])
  have 3: "0 \<le> fl (of_nat b / of_nat s) * 100" using fl_nonneg [OF 0] by simp
  have "fl (fl (of_nat b / of_nat s) * 100) \<le> fl (fl (of_nat b' / of_nat s) * 100)"
    using 2 by (intro fl_mono [OF 3]) simp
  then show ?thesis unfolding percent_def js_mul_def js_div_def by (rule Math_round_mono)
qed

lemma percent_nonneg: "0 \<le> percent b s"
proof -
  have "(0 :: rat) \<le> of_nat b / of_nat s" by simp
  then have "0 \<le> fl (of_nat b / of_nat s) * 100" using fl_nonneg by simp
  then have "0 \<le> fl (fl (of_nat b / of_nat s) * 100)" by (rule fl_nonneg)
  then show ?thesis unfolding percent_def js_mul_def js_div_def Math_round_def by simp
qed

section \<open>Integers as numbers\<close>

text \<open>
  Rounding an integer to the nearest double yields an integer of the same sign; below
  \<open>2 ^ 53\<close> in magnitude it yields the integer itself, and from \<open>2 ^ 1024\<close> on it overflows.
\<close>

lemma binexp_of_int_range:
  assumes "n \<noteq> 0"
  shows "0 \<le> binexp (of_int \<bar>n\<bar>)"
    and "\<bar>n\<bar> < 2 ^ 53 \<Longrightarrow> binexp (of_int \<bar>n\<bar>) \<le> 52"
    and "2 ^ 53 \<le> \<bar>n\<bar> \<Longrightarrow> 53 \<le> binexp (of_int \<bar>n\<bar>)"
proof -
  let ?x = "of_int \<bar>n\<bar> :: rat"
  let ?e = "binexp ?x"
  from assms have pos: "0 < ?x" by simp
  note b = binexp_bounds [OF pos]
  from assms have "1 \<le> \<bar>n\<bar>" by simp
  then have one: "1 \<le> ?x" by (simp only: of_int_1_le_iff)
  show "0 \<le> ?e"
  proof (rule ccontr)
    assume "\<not> 0 \<le> ?e"
    then have "?e + 1 \<le> 0" by simp
    then have "power_int (2 :: rat) (?e + 1) \<le> power_int 2 0"
      by (intro power_int_increasing) simp_all
    with b(2) one show False by simp
  qed
  show "?e \<le> 52" if "\<bar>n\<bar> < 2 ^ 53"
  proof (rule ccontr)
    assume "\<not> ?e \<le> 52"
    then have "53 \<le> ?e" by simp
    then have "power_int (2 :: rat) 53 \<le> power_int 2 ?e"
      by (intro power_int_increasing) simp_all
    with b(1) have "(2 :: rat) ^ 53 \<le> ?x" by simp
    then have "(of_int (2 ^ 53) :: rat) \<le> of_int \<bar>n\<bar>" by simp
    then have "2 ^ 53 \<le> \<bar>n\<bar>" by (simp only: of_int_le_iff)
    with that show False by simp
  qed
  show "53 \<le> ?e" if "2 ^ 53 \<le> \<bar>n\<bar>"
  proof (rule ccontr)
    assume "\<not> 53 \<le> ?e"
    then have "?e + 1 \<le> 53" by simp
    then have "power_int (2 :: rat) (?e + 1) \<le> power_int 2 53"
      by (intro power_int_increasing) simp_all
    with b(2) have "?x < (2 :: rat) ^ 53" by simp
    then have "(of_int \<bar>n\<bar> :: rat) < of_int (2 ^ 53)" by simp
    then have "\<bar>n\<bar> < 2 ^ 53" by (simp only: of_int_less_iff)
    with that show False by simp
  qed
qed

lemma fl_abs: "fl x = sgn x * fl \<bar>x\<bar>"
  by (cases "x = 0") (simp_all add: fl_def Let_def sgn_if)

lemma fl_of_int_exact:
  assumes "\<bar>n\<bar> < 2 ^ 53"
  shows "fl (of_int n) = of_int n"
proof (cases "n = 0")
  case True
  then show ?thesis by simp
next
  case False
  let ?x = "of_int \<bar>n\<bar> :: rat"
  define k where "k = nat (52 - binexp ?x)"
  note r = binexp_of_int_range(1,2) [OF False]
  have e: "binexp ?x - 52 = - int k" using r assms by (simp add: k_def)
  have pos: "0 < ?x" using False by simp
  have u: "power_int (2 :: rat) (binexp ?x - 52) = 1 / 2 ^ k"
    unfolding e by (simp add: power_int_minus field_simps)
  have "?x / (1 / 2 ^ k) = of_int (\<bar>n\<bar> * 2 ^ k)" by simp
  then have "round_half_even (?x / (1 / 2 ^ k)) = \<bar>n\<bar> * 2 ^ k"
    by (simp only: round_half_even_of_int)
  then have "fl ?x = ?x" unfolding fl_pos_eq [OF pos] u by simp
  moreover have "fl (of_int n) = sgn (of_int n) * fl \<bar>of_int n :: rat\<bar>" by (rule fl_abs)
  ultimately have "fl (of_int n) = sgn (of_int n) * \<bar>of_int n :: rat\<bar>" by simp
  also have "\<dots> = of_int n" by (rule mult_sgn_abs)
  finally show ?thesis .
qed

lemma fl_of_int_integral:
  "\<exists>m. fl (of_int n) = of_int m \<and> sgn m = sgn n"
proof (cases "\<bar>n\<bar> < 2 ^ 53")
  case True
  from fl_of_int_exact [OF this] show ?thesis by blast
next
  case False
  then have big: "2 ^ 53 \<le> \<bar>n\<bar>" by simp
  then have n0: "n \<noteq> 0" by auto
  let ?x = "of_int \<bar>n\<bar> :: rat"
  define k where "k = nat (binexp ?x - 52)"
  have e: "binexp ?x - 52 = int k" using binexp_of_int_range(3) [OF n0 big] by (simp add: k_def)
  have pos: "0 < ?x" using n0 by simp
  have u: "power_int (2 :: rat) (binexp ?x - 52) = of_int (2 ^ k)"
    unfolding e by simp
  define r where "r = round_half_even (?x / of_int (2 ^ k))"
  have f: "fl ?x = of_int (r * 2 ^ k)" unfolding fl_pos_eq [OF pos] u r_def by simp
  have "(0 :: rat) < power_int 2 (binexp ?x)" by simp
  with fl_pos_bounds(1) [OF pos] have "0 < fl ?x" by linarith
  then have rp: "0 < r * 2 ^ k" unfolding f by (simp only: of_int_0_less_iff)
  have "fl (of_int n) = sgn (of_int n) * fl \<bar>of_int n :: rat\<bar>" by (rule fl_abs)
  moreover have "sgn (of_int n :: rat) = of_int (sgn n)" by (simp add: sgn_if)
  ultimately have "fl (of_int n) = of_int (sgn n * (r * 2 ^ k))" using f by simp
  moreover have "sgn (sgn n * (r * 2 ^ k)) = sgn n"
  proof -
    have "sgn (r * 2 ^ k) = 1" using rp by (rule sgn_pos)
    then have "sgn (sgn n * (r * 2 ^ k)) = sgn (sgn n) * 1" by (simp only: sgn_mult)
    then show ?thesis by simp
  qed
  ultimately show ?thesis by blast
qed

lemma binexp_eq:
  assumes "power_int 2 e \<le> x" and "x < power_int 2 (e + 1)"
  shows "binexp x = e"
proof -
  have "(0 :: rat) < power_int 2 e" by simp
  from this assms(1) have pos: "0 < x" by (rule less_le_trans)
  note b = binexp_bounds [OF pos]
  have "binexp x < e + 1"
  proof (rule ccontr)
    assume "\<not> binexp x < e + 1"
    then have "e + 1 \<le> binexp x" by simp
    then have "power_int (2 :: rat) (e + 1) \<le> power_int 2 (binexp x)"
      by (intro power_int_increasing) simp_all
    with b(1) assms(2) show False by simp
  qed
  moreover have "e < binexp x + 1"
  proof (rule ccontr)
    assume "\<not> e < binexp x + 1"
    then have "binexp x + 1 \<le> e" by simp
    then have "power_int (2 :: rat) (binexp x + 1) \<le> power_int 2 e"
      by (intro power_int_increasing) simp_all
    with b(2) assms(1) show False by simp
  qed
  ultimately show ?thesis by simp
qed

lemma fl_tie: "fl 9007199254740993 = 9007199254740992"
proof -
  have e: "binexp 9007199254740993 = 53"
    by (rule binexp_eq) simp_all
  have r: "round_half_even (9007199254740993 / 2) = 4503599627370496"
  proof -
    have f: "\<lfloor>9007199254740993 / 2 :: rat\<rfloor> = 4503599627370496"
      by (rule floor_unique) simp_all
    show ?thesis by (simp add: round_half_even_def f)
  qed
  have "fl 9007199254740993 = of_int (round_half_even (9007199254740993 / 2)) * 2"
    using fl_pos_eq [of 9007199254740993] by (simp add: e)
  then show ?thesis by (simp add: r)
qed

lemma to_number_exact:
  assumes "\<bar>n\<bar> < 2 ^ 53"
  shows "to_number (of_int n) = Num (of_int n)"
proof -
  have "\<bar>n\<bar> < 2 ^ 1024" using assms by simp
  then have "(of_int \<bar>n\<bar> :: rat) < of_int (2 ^ 1024)" by (simp only: of_int_less_iff)
  then have "\<bar>of_int n :: rat\<bar> < 2 ^ 1024" by simp
  then have "\<not> 2 ^ 1024 \<le> (of_int n :: rat)" "\<not> (of_int n :: rat) \<le> - (2 ^ 1024)"
    by linarith+
  then show ?thesis by (simp only: to_number_def fl_of_int_exact [OF assms] Let_def if_False)
qed

lemma to_number_cases:
  obtains (finite) m where "to_number (of_int n) = Num (of_int m)" "sgn m = sgn n"
  | (pos) "to_number (of_int n) = PosInfinity" "0 < n"
  | (neg) "to_number (of_int n) = NegInfinity" "n < 0"
proof -
  obtain m where m: "fl (of_int n) = of_int m" "sgn m = sgn n"
    using fl_of_int_integral by blast
  show ?thesis
  proof (cases "2 ^ 1024 \<le> (of_int m :: rat)")
    case True
    then have "0 < (of_int m :: rat)" by (rule less_le_trans [rotated]) simp
    then have "0 < m" by (simp only: of_int_0_less_iff)
    with m(2) have "0 < n" by (simp add: sgn_if split: if_splits)
    with True m(1) show ?thesis by (intro pos) (simp_all add: to_number_def)
  next
    case False
    note nt = this
    show ?thesis
    proof (cases "(of_int m :: rat) \<le> - (2 ^ 1024)")
      case True
      then have "(of_int m :: rat) < 0" by (rule le_less_trans) simp
      then have "m < 0" by (simp only: of_int_less_0_iff)
      with m(2) have "n < 0" by (simp add: sgn_if split: if_splits)
      with True nt m(1) show ?thesis by (intro neg) (simp_all add: to_number_def)
    next
      case False
      with nt m show ?thesis by (intro finite [of m]) (simp_all add: to_number_def)
    qed
  qed
qed

lemma to_number_overflow:
  assumes "2 ^ 1024 \<le> x"
  shows "to_number x = PosInfinity"
proof -
  have p: "(0 :: rat) < 2 ^ 1024" by simp
  from p assms have pos: "0 < x" by (rule less_le_trans)
  have "1024 < binexp x + 1"
  proof (rule ccontr)
    assume "\<not> 1024 < binexp x + 1"
    then have "binexp x + 1 \<le> 1024" by simp
    then have "power_int (2 :: rat) (binexp x + 1) \<le> power_int 2 1024"
      by (intro power_int_increasing) simp_all
    with binexp_bounds(2) [OF pos] have "x < power_int 2 1024" by (rule less_le_trans)
    also have "power_int (2 :: rat) 1024 = 2 ^ 1024" by (simp add: power_int_def)
    finally have "x < 2 ^ 1024" .
    with leD [OF assms] show False by (rule notE)
  qed
  then have "1024 \<le> binexp x" by simp
  then have "power_int (2 :: rat) 1024 \<le> power_int 2 (binexp x)"
    by (intro power_int_increasing) simp_all
  also note fl_pos_bounds(1) [OF pos]
  finally have "power_int 2 1024 \<le> fl x" .
  moreover have "power_int (2 :: rat) 1024 = 2 ^ 1024" by (simp add: power_int_def)
  ultimately have "2 ^ 1024 \<le> fl x" by (simp only:)
  then show ?thesis by (simp only: to_number_def Let_def if_True)
qed

section \<open>Obfuscation and key derivation\<close>

lemma js_rem_int:
  "js_rem (Num (of_int m)) (Num 256) = Num (of_int (sgn m * (\<bar>m\<bar> mod 256)))"
proof -
  have f: "\<lfloor>(of_int \<bar>m\<bar> :: rat) / of_int 256\<rfloor> = \<bar>m\<bar> div 256" by (rule floor_divide_of_int_eq)
  have "(of_int \<bar>m\<bar> :: rat) - 256 * of_int (\<bar>m\<bar> div 256) = of_int (\<bar>m\<bar> - 256 * (\<bar>m\<bar> div 256))"
    by simp
  also have "\<bar>m\<bar> - 256 * (\<bar>m\<bar> div 256) = \<bar>m\<bar> mod 256" by (simp add: minus_mult_div_eq_mod)
  finally have r: "(of_int \<bar>m\<bar> :: rat) - 256 * of_int (\<bar>m\<bar> div 256) = of_int (\<bar>m\<bar> mod 256)" .
  have s: "sgn (of_int m :: rat) = of_int (sgn m)" by (simp add: sgn_if)
  have a: "\<bar>of_int m :: rat\<bar> = of_int \<bar>m\<bar>" by simp
  have "js_rem (Num (of_int m)) (Num 256) =
          Num (sgn (of_int m) * (\<bar>of_int m\<bar> - 256 * of_int \<lfloor>\<bar>of_int m :: rat\<bar> / 256\<rfloor>))"
    by (simp add: js_rem_def)
  also have "\<dots> = Num (of_int (sgn m * (\<bar>m\<bar> mod 256)))"
    unfolding s a using f r by simp
  finally show ?thesis .
qed

lemma js_rem_nonneg:
  assumes "0 \<le> m"
  shows "js_rem (Num (of_int m)) (Num 256) = Num (of_int (m mod 256))"
proof -
  have "sgn m * (\<bar>m\<bar> mod 256) = m mod 256" using assms by (cases "m = 0") simp_all
  then show ?thesis by (simp only: js_rem_int)
qed

lemma js_rem_infinite:
  "js_rem PosInfinity d = NaN" "js_rem NegInfinity d = NaN" "js_rem NaN d = NaN"
  by (simp_all add: js_rem_def)

lemma rem_range: "- 255 \<le> sgn m * (\<bar>m\<bar> mod 256) \<and> sgn m * (\<bar>m\<bar> mod 256) \<le> (255 :: int)"
proof -
  have "0 \<le> \<bar>m\<bar> mod 256" "\<bar>m\<bar> mod 256 < 256" by simp_all
  then show ?thesis by (cases "m < 0"; cases "m = 0") (auto simp: sgn_if)
qed

lemma rem_mod: "(sgn m * (\<bar>m\<bar> mod 256)) mod 256 = m mod (256 :: int)"
proof (cases "m < 0")
  case True
  then have "sgn m * (\<bar>m\<bar> mod 256) = - ((- m) mod 256)" by simp
  then show ?thesis by (simp add: mod_minus_eq)
next
  case False
  then show ?thesis by (cases "m = 0") simp_all
qed

lemma ToInt32_of_int:
  "ToInt32 (Num (of_int n)) = (if 2 ^ 31 \<le> n mod 2 ^ 32 then n mod 2 ^ 32 - 2 ^ 32 else n mod 2 ^ 32)"
  unfolding ToInt32_def Let_def number.case floor_of_int ceiling_of_int if_cancel ..

lemma word_of_int_mod32: "(word_of_int (n mod 2 ^ 32) :: byte) = word_of_int n"
proof -
  have "n mod 2 ^ 32 = take_bit 32 n" by (simp only: take_bit_eq_mod)
  moreover have "take_bit 8 (take_bit 32 n) = take_bit 8 n" by simp
  ultimately show ?thesis by (simp add: word_of_int_eq_iff)
qed

lemma word_of_int_sub32: "(word_of_int (x - 2 ^ 32) :: byte) = word_of_int x"
proof -
  have "(word_of_int (x - 2 ^ 32) :: byte) = word_of_int x - word_of_int (2 ^ 32)"
    by (rule wi_hom_sub [symmetric])
  moreover have "(word_of_int (2 ^ 32) :: byte) = 0"
    by (simp only: word_of_int_eq_0_iff) simp
  ultimately show ?thesis by simp
qed

lemma ToInt32_word: "(word_of_int (ToInt32 (Num (of_int n))) :: byte) = word_of_int n"
  by (simp only: ToInt32_of_int if_distrib [of word_of_int] word_of_int_sub32 word_of_int_mod32 if_cancel)

lemma ToInt32_small:
  assumes "- (2 ^ 31) \<le> n" "n < 2 ^ 31"
  shows "ToInt32 (Num (of_int n)) = n"
proof (cases "0 \<le> n")
  case True
  with assms have "n mod 2 ^ 32 = n" by (intro mod_pos_pos_trivial) simp_all
  with assms show ?thesis by (simp only: ToInt32_of_int) simp
next
  case False
  have "(n + 2 ^ 32) mod 2 ^ 32 = n + 2 ^ 32"
    using assms False by (intro mod_pos_pos_trivial) simp_all
  then have "n mod 2 ^ 32 = n + 2 ^ 32" by (simp only: mod_add_self2)
  with assms False show ?thesis by (simp only: ToInt32_of_int) simp
qed

lemma ToInt32_not_finite: "ToInt32 NaN = 0" "ToInt32 PosInfinity = 0" "ToInt32 NegInfinity = 0"
  by (simp_all add: ToInt32_def)

lemma xor_byte: "(word_of_int (uint b XOR k) :: byte) = b XOR word_of_int k"
  by (simp add: word_wi_log_defs(4) [symmetric])
  
lemma xor_scramble_word: "xor_scramble k bs = map (\<lambda>b. b XOR word_of_int (ToInt32 k)) bs"
  by (simp add: xor_scramble_def xor_byte)

lemma xor_scramble_cancel: "xor_scramble k (xor_scramble k bs) = bs"
  by (simp add: xor_scramble_word xor.assoc map_idI)

lemma xor_scramble_int:
  "xor_scramble (Num (of_int n)) bs = map (\<lambda>b. b XOR word_of_int n) bs"
  by (simp only: xor_scramble_word ToInt32_word)

lemma xor_scramble_zero: "xor_scramble (Num 0) bs = bs"
  using xor_scramble_int [of 0 bs] by (simp add: map_idI)

lemma xor_scramble_NaN: "xor_scramble NaN bs = bs"
  by (simp add: xor_scramble_word ToInt32_not_finite map_idI)

lemma length_xor_scramble: "length (xor_scramble k bs) = length bs"
  by (simp add: xor_scramble_def)

lemma xor_scramble_Nil_iff: "xor_scramble k bs = [] \<longleftrightarrow> bs = []"
  by (simp add: xor_scramble_def)

lemma nth_xor_scramble:
  "i < length bs \<Longrightarrow> xor_scramble k bs ! i = bs ! i XOR word_of_int (ToInt32 k)"
  by (simp add: xor_scramble_word)

lemma code_char_not_hash: "is_code_char c \<Longrightarrow> c \<noteq> CHR ''#''"
  by (auto simp: is_code_char_def Let_def)

lemma dec_digit_props:
  assumes "is_dec_digit c"
  shows "c \<noteq> CHR ''#''" "\<not> is_js_space c" "c \<noteq> CHR ''-''" "c \<noteq> CHR ''+''"
    "c \<noteq> CHR ''x''" "c \<noteq> CHR ''X''" "digit_value 10 c \<noteq> None"
  using assms by (auto simp: is_dec_digit_def is_js_space_def digit_value_def Let_def)

lemma valid_room_codeE:
  assumes "valid_room_code code"
  obtains a b c d e f p q r s where
    "code = [a, b, c, CHR ''-'', d, e, f, CHR ''#'', p, q, r, s]"
    "is_code_char a" "is_code_char b" "is_code_char c"
    "is_code_char d" "is_code_char e" "is_code_char f"
    "is_dec_digit p" "is_dec_digit q" "is_dec_digit r" "is_dec_digit s"
proof -
  from assms have len: "length code = 12" by (simp add: valid_room_code_def)
  then obtain a b c m d e f h p q r s where code: "code = [a, b, c, m, d, e, f, h, p, q, r, s]"
    by (auto simp: length_Suc_conv numeral_eq_Suc)
  with assms show ?thesis
    by (intro that [of a b c d e f p q r s]) (simp_all add: valid_room_code_def)
qed

lemma pinStr_valid:
  assumes "valid_room_code code"
  shows "pinStr code = drop 8 code"
  using assms
  by (elim valid_room_codeE) (simp add: pinStr_def code_char_not_hash dec_digit_props)


lemma split_on_no_sep: "c \<notin> set s \<Longrightarrow> split_on c s = [s]"
  by (induction s) auto

lemma split_on_first: "c \<notin> set pre \<Longrightarrow> split_on c (pre @ c # rest) = pre # split_on c rest"
  by (induction pre) auto

lemma split_on_hd: "\<exists>ss. split_on c s = takeWhile (\<lambda>x. x \<noteq> c) s # ss"
  by (induction s) auto

lemma dropWhile_takeWhile_comm:
  "(\<And>c. P c \<Longrightarrow> Q c) \<Longrightarrow> dropWhile P (takeWhile Q s) = takeWhile Q (dropWhile P s)"
  by (induction s) auto

lemma takeWhile_takeWhile_imp:
  "(\<And>c. P c \<Longrightarrow> Q c) \<Longrightarrow> takeWhile P (takeWhile Q s) = takeWhile P s"
  by (induction s) auto

lemma space_not_hash: "is_js_space c \<Longrightarrow> c \<noteq> CHR ''#''"
  by (auto simp: is_js_space_def)

lemma digit_not_hash: "digit_value radix c \<noteq> None \<Longrightarrow> c \<noteq> CHR ''#''"
  by (auto simp: digit_value_def Let_def)

lemma parse_digits_before_hash:
  "parse_digits radix (takeWhile (\<lambda>c. c \<noteq> CHR ''#'') s) = parse_digits radix s"
  by (simp add: parse_digits_def takeWhile_takeWhile_imp digit_not_hash)

lemma parse_digits_hash: "parse_digits radix (CHR ''#'' # r) = None"
  by (simp add: parse_digits_def digit_value_def)

lemma parse_digits_Nil: "parse_digits radix [] = None"
  by (simp add: parse_digits_def)

lemma parse_unsigned_before_hash:
  "parse_unsigned (takeWhile (\<lambda>c. c \<noteq> CHR ''#'') s) = parse_unsigned s"
proof (cases s)
  case Nil
  then show ?thesis by simp
next
  case (Cons c r)
  note s = this
  show ?thesis
  proof (cases r)
    case Nil
    with s show ?thesis
      by (simp add: parse_unsigned_def parse_digits_hash parse_digits_Nil)
  next
    case (Cons x r')
    with s parse_digits_before_hash [of 10 s] parse_digits_before_hash [of 16 r'] show ?thesis
      by (auto simp: parse_unsigned_def parse_digits_hash parse_digits_Nil)
  qed
qed

lemma parse_unsigned_hash: "parse_unsigned (CHR ''#'' # r) = None"
  by (simp add: parse_unsigned_def parse_digits_hash split: list.splits)

lemma parse_signed_before_hash:
  "parse_signed (takeWhile (\<lambda>c. c \<noteq> CHR ''#'') s) = parse_signed s"
proof (cases s)
  case Nil
  then show ?thesis by simp
next
  case (Cons c r)
  with parse_unsigned_before_hash [of s] parse_unsigned_before_hash [of r] show ?thesis
    by (auto simp: parse_signed_def parse_unsigned_hash)
qed

lemma parseInt_before_hash:
  "parseInt (takeWhile (\<lambda>c. c \<noteq> CHR ''#'') s) = parseInt s"
  by (simp add: parseInt_def dropWhile_takeWhile_comm space_not_hash parse_signed_before_hash)

lemma parseInt_Nil: "parseInt [] = NaN"
  by (simp add: parseInt_def parse_signed_def)

lemma parseInt_exact:
  assumes "parse_signed (dropWhile is_js_space s) = Some n" and "\<bar>n\<bar> < 2 ^ 53"
  shows "parseInt s = Num (of_int n)"
  using assms(1) to_number_exact [OF assms(2)] by (simp add: parseInt_def)

lemma parseInt_zero: "parseInt ''0'' = Num 0"
proof -
  have "parse_signed (dropWhile is_js_space ''0'') = Some 0"
    by (simp add: parse_signed_def parse_unsigned_def parse_digits_def is_js_space_def
        digit_value_def)
  from parseInt_exact [OF this] show ?thesis by simp
qed

lemma parseInt_cases:
  obtains (nan) "parseInt s = NaN"
  | (finite) m where "parseInt s = Num (of_int m)"
  | (pos) "parseInt s = PosInfinity"
  | (neg) "parseInt s = NegInfinity"
proof (cases "parse_signed (dropWhile is_js_space s)")
  case None
  then show ?thesis by (intro nan) (simp add: parseInt_def)
next
  case (Some n)
  then have p: "parseInt s = to_number (of_int n)" by (simp add: parseInt_def)
  show ?thesis
    by (rule to_number_cases [of n]) (auto simp: p intro: finite pos neg)
qed

lemma pin_no_hash: "CHR ''#'' \<notin> set code \<Longrightarrow> pin code = Num 1024"
  by (simp add: pin_def pinStr_def split_on_no_sep parseInt_zero js_or_def truthy_def)

lemma pin_after_hash:
  assumes "CHR ''#'' \<notin> set pre"
  shows "pin (pre @ CHR ''#'' # rest) = js_or (parseInt rest) (Num 1024)"
proof -
  let ?seg = "takeWhile (\<lambda>x. x \<noteq> CHR ''#'') rest"
  obtain ss where "split_on (CHR ''#'') rest = ?seg # ss"
    using split_on_hd by blast
  then have p: "pinStr (pre @ CHR ''#'' # rest) = (if ?seg = [] then ''0'' else ?seg)"
    using assms by (simp add: pinStr_def split_on_first)
  show ?thesis
  proof (cases "?seg = []")
    case True
    then have "parseInt rest = NaN"
      using parseInt_before_hash [of rest] by (simp add: parseInt_Nil)
    with True p show ?thesis by (simp add: pin_def parseInt_zero js_or_def truthy_def)
  next
    case False
    with p show ?thesis by (simp add: pin_def parseInt_before_hash)
  qed
qed

lemma pin_cases:
  obtains (finite) m where "pin code = Num (of_int m)" "m \<noteq> 0"
  | (pos) "pin code = PosInfinity"
  | (neg) "pin code = NegInfinity"
proof (cases "pinStr code" rule: parseInt_cases)
  case nan
  then have "pin code = Num (of_int 1024)" by (simp add: pin_def js_or_def truthy_def)
  then show ?thesis by (rule finite) simp
next
  case (finite m)
  show ?thesis
  proof (cases "m = 0")
    case True
    with finite have "pin code = Num (of_int 1024)" by (simp add: pin_def js_or_def truthy_def)
    then show ?thesis by (rule that(1)) simp
  next
    case False
    with finite have "pin code = Num (of_int m)" by (simp add: pin_def js_or_def truthy_def)
    then show ?thesis using False by (rule that(1))
  qed
next
  case pos
  then show ?thesis by (intro that(2)) (simp add: pin_def js_or_def truthy_def)
next
  case neg
  then show ?thesis by (intro that(3)) (simp add: pin_def js_or_def truthy_def)
qed

lemma key_of_pin:
  "pin code = Num (of_int m) \<Longrightarrow>
   receiver_key code = Num (of_int (sgn m * (\<bar>m\<bar> mod 256))) \<and>
   sender_key code = Num (of_int (sgn m * (\<bar>m\<bar> mod 256)))"
  by (simp only: receiver_key_def sender_key_def js_rem_int)

lemma key_of_infinite_pin:
  "pin code = PosInfinity \<or> pin code = NegInfinity \<Longrightarrow>
   receiver_key code = NaN \<and> sender_key code = NaN"
  by (auto simp: receiver_key_def sender_key_def js_rem_infinite)

lemma digit_value_dec:
  assumes "is_dec_digit c"
  shows "\<exists>d. digit_value 10 c = Some d \<and> d < 10"
  using assms by (auto simp: is_dec_digit_def digit_value_def Let_def)

lemma digits_value_append:
  "list_all (\<lambda>c. digit_value r c \<noteq> None) xs \<Longrightarrow>
   digits_value r acc (xs @ ys) = digits_value r (digits_value r acc xs) ys"
  by (induction xs arbitrary: acc) auto

lemma digits_value_bounds:
  "list_all is_dec_digit s \<Longrightarrow> 0 \<le> acc \<Longrightarrow>
   0 \<le> digits_value 10 acc s \<and> digits_value 10 acc s < (acc + 1) * 10 ^ length s"
proof (induction s arbitrary: acc)
  case Nil
  then show ?case by simp
next
  case (Cons c s)
  from Cons.prems obtain d where d: "digit_value 10 c = Some d" "d < 10"
    using digit_value_dec [of c] by auto
  from Cons.prems have "list_all is_dec_digit s" "0 \<le> acc * 10 + int d" by simp_all
  from Cons.IH [OF this]
  have lo: "0 \<le> digits_value 10 (acc * 10 + int d) s"
    and hi: "digits_value 10 (acc * 10 + int d) s < (acc * 10 + int d + 1) * 10 ^ length s"
    by simp_all
  have "acc * 10 + int d + 1 \<le> (acc + 1) * 10" using d(2) by simp
  then have "(acc * 10 + int d + 1) * 10 ^ length s \<le> (acc + 1) * 10 * 10 ^ length s"
    by (intro mult_right_mono) simp_all
  with hi have hi': "digits_value 10 (acc * 10 + int d) s < (acc + 1) * 10 * 10 ^ length s"
    by (rule less_le_trans)
  have e: "digits_value 10 acc (c # s) = digits_value 10 (acc * 10 + int d) s"
    by (simp add: d(1))
  have p: "(acc + 1) * 10 ^ length (c # s) = (acc + 1) * 10 * 10 ^ length s" by simp
  show ?case unfolding e p using lo hi' by blast
qed

lemma parse_signed_digits:
  assumes "list_all is_dec_digit s" and "s \<noteq> []"
  shows "parse_signed (dropWhile is_js_space s) = Some (digits_value 10 0 s)"
proof -
  from assms obtain c r where s: "s = c # r" "is_dec_digit c" "list_all is_dec_digit r"
    by (cases s) auto
  have tw: "takeWhile (\<lambda>c. digit_value 10 c \<noteq> None) s = s"
    using assms(1) by (intro takeWhile_eq_all_conv [THEN iffD2])
      (auto simp: list_all_iff dec_digit_props)
  have pd: "parse_digits 10 s = Some (digits_value 10 0 s)"
    unfolding parse_digits_def tw Let_def using assms(2) by simp
  have pu: "parse_unsigned s = parse_digits 10 s"
  proof (cases r)
    case Nil
    then show ?thesis by (simp add: parse_unsigned_def s(1))
  next
    case (Cons x r')
    with s(3) have "is_dec_digit x" by simp
    from dec_digit_props(5,6) [OF this] show ?thesis by (simp add: parse_unsigned_def s(1) Cons)
  qed
  have "dropWhile is_js_space s = s" using s(1) dec_digit_props(2) [OF s(2)] by simp
  moreover have "parse_signed s = parse_unsigned s"
    using dec_digit_props(3,4) [OF s(2)] by (simp add: parse_signed_def s(1))
  ultimately show ?thesis using pu pd by simp
qed

lemma valid_room_code_pin:
  assumes "valid_room_code code"
  obtains n where "pin code = Num (of_int n) \<or> (n = 0 \<and> pin code = Num 1024)"
    "0 \<le> n" "n < 10000"
proof -
  from assms obtain p q r s where d: "drop 8 code = [p, q, r, s]"
    "list_all is_dec_digit [p, q, r, s]"
    by (elim valid_room_codeE) simp
  define n where "n = digits_value 10 0 [p, q, r, s]"
  from digits_value_bounds [OF d(2), of 0] have b: "0 \<le> n" "n < 10000" by (simp_all add: n_def)
  have "parse_signed (dropWhile is_js_space [p, q, r, s]) = Some n"
    unfolding n_def by (rule parse_signed_digits [OF d(2)]) simp
  from parseInt_exact [OF this] b have "parseInt (pinStr code) = Num (of_int n)"
    by (simp add: pinStr_valid [OF assms] d(1))
  then have "pin code = Num (of_int n) \<or> (n = 0 \<and> pin code = Num 1024)"
    by (simp add: pin_def js_or_def truthy_def)
  then show ?thesis using b by (rule that)
qed

lemma valid_room_code_key:
  assumes "valid_room_code code"
  shows "sender_key code = receiver_key code"
    and "\<exists>n. sender_key code = Num (of_int n) \<and> 0 \<le> n \<and> n \<le> 255"
proof -
  show "sender_key code = receiver_key code" by (simp add: sender_key_def receiver_key_def)
  from assms obtain n where n: "pin code = Num (of_int n) \<or> (n = 0 \<and> pin code = Num 1024)"
    "0 \<le> n" by (rule valid_room_code_pin)
  have "pin code = Num (of_int 1024) \<Longrightarrow> sender_key code = Num (of_int (1024 mod 256))"
    unfolding sender_key_def by (simp only: js_rem_nonneg)
  moreover have "pin code = Num (of_int n) \<Longrightarrow> sender_key code = Num (of_int (n mod 256))"
    unfolding sender_key_def using n(2) by (simp only: js_rem_nonneg)
  ultimately have "sender_key code = Num (of_int (n mod 256))" using n(1) by auto
  moreover have "0 \<le> n mod 256" "n mod 256 \<le> 255"
    using pos_mod_bound [of 256 n] by simp_all
  ultimately show "\<exists>n. sender_key code = Num (of_int n) \<and> 0 \<le> n \<and> n \<le> 255" by blast
qed

lemma digit_char:
  assumes "d < 10"
  shows "digit_value 10 (char_of (48 + d)) = Some d" and "is_dec_digit (char_of (48 + d))"
proof -
  have "of_char (char_of (48 + d)) = 48 + d" using assms by simp
  with assms show "digit_value 10 (char_of (48 + d)) = Some d"
    and "is_dec_digit (char_of (48 + d))"
    by (simp_all add: digit_value_def is_dec_digit_def Let_def)
qed

lemma decimal_digits: "list_all is_dec_digit (decimal n) \<and> decimal n \<noteq> []"
proof (induction n rule: decimal.induct)
  case (1 n)
  show ?case
  proof (cases "n < 10")
    case True
    then show ?thesis using digit_char(2) [of n] by (subst (1 2) decimal.simps) simp
  next
    case False
    have "n mod 10 < 10" by simp
    from digit_char(2) [OF this] 1 [OF False] False show ?thesis
      by (subst (1 2) decimal.simps) simp
  qed
qed

lemma digits_value_decimal: "digits_value 10 0 (decimal n) = int n"
proof (induction n rule: decimal.induct)
  case (1 n)
  show ?case
  proof (cases "n < 10")
    case True
    then show ?thesis using digit_char(1) [of n] by (subst decimal.simps) simp
  next
    case False
    have m: "n mod 10 < 10" by simp
    have a: "list_all (\<lambda>c. digit_value 10 c \<noteq> None) (decimal (n div 10))"
      using decimal_digits [of "n div 10"] by (auto simp: list_all_iff dest: digit_value_dec)
    have "decimal n = decimal (n div 10) @ [char_of (48 + n mod 10)]"
      using False by (subst decimal.simps) simp
    then have "digits_value 10 0 (decimal n) =
            digits_value 10 (digits_value 10 0 (decimal (n div 10))) [char_of (48 + n mod 10)]"
      by (simp only: digits_value_append [OF a])
    also have "\<dots> = int (n div 10) * 10 + int (n mod 10)"
      using digit_char(1) [OF m] 1 [OF False] by simp
    also have "\<dots> = int n" by (simp add: zdiv_int zmod_int)
    finally show ?thesis .
  qed
qed

lemma parseInt_decimal:
  assumes "n < 2 ^ 53"
  shows "parseInt (decimal n) = Num (of_nat n)"
proof -
  have "parse_signed (dropWhile is_js_space (decimal n)) = Some (int n)"
    using parse_signed_digits [of "decimal n"] decimal_digits [of n]
    by (simp add: digits_value_decimal)
  moreover have "\<bar>int n\<bar> < 2 ^ 53" using assms by (simp add: of_nat_less_numeral_power_cancel_iff)
  ultimately have "parseInt (decimal n) = Num (of_int (int n))" by (rule parseInt_exact)
  then show ?thesis by simp
qed

lemma key_generateCode:
  assumes "CHR ''#'' \<notin> set str" and "p < 2 ^ 53"
  shows "sender_key (generateCode str p) = Num (of_nat (p mod 256))"
    and "receiver_key (generateCode str p) = Num (of_nat (p mod 256))"
proof -
  let ?pre = "take 3 str @ ''-'' @ take 3 (drop 3 str)"
  have g: "generateCode str p = ?pre @ CHR ''#'' # decimal p" by (simp add: generateCode_def)
  have "CHR ''#'' \<notin> set ?pre" using assms(1) by (auto dest: in_set_takeD in_set_dropD)
  from pin_after_hash [OF this, of "decimal p"]
  have "pin (generateCode str p) = js_or (Num (of_int (int p))) (Num 1024)"
    by (simp add: g parseInt_decimal [OF assms(2)])
  then have "pin (generateCode str p) = Num (of_int (int p)) \<or>
             (p = 0 \<and> pin (generateCode str p) = Num (of_int 1024))"
    by (simp add: js_or_def truthy_def)
  moreover have "pin (generateCode str p) = Num (of_int 1024) \<Longrightarrow>
        js_rem (pin (generateCode str p)) (Num 256) = Num (of_int (1024 mod 256))"
    by (simp only: js_rem_nonneg)
  moreover have "pin (generateCode str p) = Num (of_int (int p)) \<Longrightarrow>
        js_rem (pin (generateCode str p)) (Num 256) = Num (of_int (int p mod 256))"
    by (simp only: js_rem_nonneg of_nat_0_le_iff)
  ultimately have "js_rem (pin (generateCode str p)) (Num 256) = Num (of_int (int p mod 256))"
    by auto
  moreover have "int p mod 256 = int (p mod 256)" by (simp add: zmod_int)
  ultimately have k: "js_rem (pin (generateCode str p)) (Num 256) = Num (of_nat (p mod 256))"
    by simp
  show "sender_key (generateCode str p) = Num (of_nat (p mod 256))"
    and "receiver_key (generateCode str p) = Num (of_nat (p mod 256))"
    by (simp_all add: sender_key_def receiver_key_def k)
qed

lemma decimal_four:
  assumes "1000 \<le> p" "p \<le> 9999"
  shows "length (decimal p) = 4"
proof -
  from assms have c: "\<not> p < 10" "\<not> p div 10 < 10" "\<not> p div 10 div 10 < 10"
    "p div 10 div 10 div 10 < 10"
    by arith+
  have 1: "decimal p = decimal (p div 10) @ [char_of (48 + p mod 10)]"
    by (subst decimal.simps) (simp add: c)
  have 2: "decimal (p div 10) = decimal (p div 10 div 10) @ [char_of (48 + p div 10 mod 10)]"
    by (subst decimal.simps) (simp add: c)
  have 3: "decimal (p div 10 div 10) =
             decimal (p div 10 div 10 div 10) @ [char_of (48 + p div 10 div 10 mod 10)]"
    by (subst decimal.simps) (simp add: c)
  have 4: "decimal (p div 10 div 10 div 10) = [char_of (48 + p div 10 div 10 div 10)]"
    by (subst decimal.simps) (simp add: c)
  show ?thesis by (simp add: 1 2 3 4)
qed

lemma code_chars_ok: "c \<in> set code_chars \<Longrightarrow> is_code_char c"
  by (auto simp: code_chars_def is_code_char_def)

lemma generateCode_valid:
  assumes "length str = 6" and "set str \<subseteq> set code_chars" and "1000 \<le> p" and "p \<le> 9999"
  shows "valid_room_code (generateCode str p)"
proof -
  from assms(1) obtain a b c d e f where str: "str = [a, b, c, d, e, f]"
    by (auto simp: length_Suc_conv numeral_eq_Suc)
  with assms(2) have cc: "is_code_char a" "is_code_char b" "is_code_char c"
    "is_code_char d" "is_code_char e" "is_code_char f"
    by (simp_all add: code_chars_ok)
  from decimal_four [OF assms(3,4)] obtain w x y z where dp: "decimal p = [w, x, y, z]"
    by (auto simp: length_Suc_conv numeral_eq_Suc)
  with decimal_digits [of p] have dd: "list_all is_dec_digit [w, x, y, z]" by simp
  show ?thesis
    using cc dd by (simp add: valid_room_code_def generateCode_def str dp)
qed

lemma digits_value_nines:
  "digits_value 10 acc (replicate k (CHR ''9'')) = (acc + 1) * 10 ^ k - 1"
proof (induction k arbitrary: acc)
  case 0
  show ?case by simp
next
  case (Suc k)
  have d: "digit_value 10 (CHR ''9'') = Some 9" by (simp add: digit_value_def)
  have "digits_value 10 acc (replicate (Suc k) (CHR ''9'')) =
          digits_value 10 (acc * 10 + 9) (replicate k (CHR ''9''))"
    by (simp add: d)
  also have "\<dots> = (acc * 10 + 9 + 1) * 10 ^ k - 1" by (rule Suc.IH)
  also have "\<dots> = (acc + 1) * 10 ^ Suc k - 1" by (simp add: algebra_simps)
  finally show ?case .
qed

lemma parseInt_nines:
  assumes "0 < k"
  shows "parseInt (replicate k (CHR ''9'')) = to_number (10 ^ k - 1)"
proof -
  have nine: "is_dec_digit (CHR ''9'')" by (simp add: is_dec_digit_def)
  then have "list_all is_dec_digit (replicate k (CHR ''9''))" by (simp add: list_all_iff)
  moreover have "replicate k (CHR ''9'') \<noteq> []" using assms by simp
  ultimately have "parse_signed (dropWhile is_js_space (replicate k (CHR ''9''))) =
                     Some (digits_value 10 0 (replicate k (CHR ''9'')))"
    by (rule parse_signed_digits)
  then show ?thesis by (simp add: parseInt_def digits_value_nines)
qed

lemma ten_309: "(2 :: rat) ^ 1024 \<le> 10 ^ 309 - 1"
proof -
  have "(2 :: int) ^ 1024 \<le> 10 ^ 309 - 1" by simp
  then have "(of_int (2 ^ 1024) :: rat) \<le> of_int (10 ^ 309 - 1)" by (simp only: of_int_le_iff)
  then show ?thesis by simp
qed

lemma parseInt_309: "parseInt (replicate 309 (CHR ''9'')) = PosInfinity"
  using to_number_overflow [OF ten_309] parseInt_nines [of 309] by simp

lemma key_eval:
  assumes "parse_signed (dropWhile is_js_space (pinStr code)) = Some n"
    and "\<bar>n\<bar> < 2 ^ 53" and "n \<noteq> 0"
  shows "pin code = Num (of_int n)"
    and "receiver_key code = Num (of_int (sgn n * (\<bar>n\<bar> mod 256)))"
    and "sender_key code = Num (of_int (sgn n * (\<bar>n\<bar> mod 256)))"
proof -
  have "parseInt (pinStr code) = Num (of_int n)" by (rule parseInt_exact [OF assms(1,2)])
  then show p: "pin code = Num (of_int n)" using assms(3) by (simp add: pin_def js_or_def truthy_def)
  from key_of_pin [OF p]
  show "receiver_key code = Num (of_int (sgn n * (\<bar>n\<bar> mod 256)))"
    and "sender_key code = Num (of_int (sgn n * (\<bar>n\<bar> mod 256)))"
    by simp_all
qed

lemma byte_of_int_cong: "a mod 256 = b mod 256 \<Longrightarrow> (word_of_int a :: byte) = word_of_int b"
  by (simp add: word_of_int_eq_iff take_bit_eq_mod)

lemma mod_byte_bounds: "0 \<le> n mod 256 \<and> n mod 256 \<le> (255 :: int)"
  using pos_mod_bound [of 256 n] by simp

lemma key_1234:
  "sender_key ''abc-def#1234'' = Num 210" "receiver_key ''abc-def#1234'' = Num 210"
proof -
  have "parse_signed (dropWhile is_js_space (pinStr ''abc-def#1234'')) = Some 1234"
    by (simp add: pinStr_def parse_signed_def parse_unsigned_def parse_digits_def
        is_js_space_def digit_value_def)
  from key_eval(2,3) [OF this]
  show "sender_key ''abc-def#1234'' = Num 210" "receiver_key ''abc-def#1234'' = Num 210"
    by simp_all
qed

text \<open>
  Claim C4. The byte-wise transform applied twice with the same key restores the bytes
  (for every key, in particular for every integer key in \<open>[0, 255]\<close>), and for every room
  code of the valid format the sender and the receiver derive the same key, an integer in
  \<open>[0, 255]\<close>.
\<close>

theorem obfuscation_involution_and_key_agreement:
  "xor_scramble k (xor_scramble k b) = b \<and>
   (valid_room_code code \<longrightarrow>
      sender_key code = receiver_key code \<and>
      (\<exists>n. sender_key code = Num (of_int n) \<and> 0 \<le> n \<and> n \<le> 255))"
  using valid_room_code_key [of code] by (simp add: xor_scramble_cancel)

theorem obfuscation_involution_and_key_agreement_witness:
  "xor_scramble (Num 210) (xor_scramble (Num 210) [0, 1, 255]) = [0, 1, 255] \<and>
   valid_room_code ''abc-def#1234'' \<and>
   sender_key ''abc-def#1234'' = Num 210 \<and> receiver_key ''abc-def#1234'' = Num 210"
proof -
  have v: "valid_room_code ''abc-def#1234''"
    by (simp add: valid_room_code_def is_code_char_def is_dec_digit_def)
  from obfuscation_involution_and_key_agreement [of "Num 210" "[0, 1, 255]" "''abc-def#1234''"] v
    key_1234
  show ?thesis by simp
qed

text \<open>
  Claim C9, as the code has it. The PIN is \<^verbatim>\<open>parseInt\<close> of the text after the first \<^verbatim>\<open>#\<close> of
  the room code, or 1024 when there is no \<^verbatim>\<open>#\<close>, when that text has no leading numeral, or
  when the numeral is 0. \<^verbatim>\<open>parseInt\<close> yields a double, so the PIN is a non-zero integer
  (for a long numeral not the one written, but the nearest double) or an infinity. The key
  is the remainder of the PIN modulo 256 with the sign of the PIN: for a finite PIN an
  integer in \<open>[-255, 255]\<close>, in \<open>[0, 255]\<close> when the PIN is not negative, and xor-ing a byte
  with it is xor-ing it with the PIN's residue modulo 256; for an infinite PIN the key is
  \<^verbatim>\<open>NaN\<close> and the xor changes nothing. With the default 1024 the key is 0 and the cipher
  changes nothing.
\<close>

theorem key_derivation:
  "sender_key code = receiver_key code \<and>
   receiver_key code = js_rem (pin code) (Num 256) \<and>
   (CHR ''#'' \<notin> set code \<longrightarrow> pin code = Num 1024) \<and>
   (CHR ''#'' \<notin> set pre \<longrightarrow>
      pin (pre @ CHR ''#'' # rest) =
        (if parseInt rest = NaN \<or> parseInt rest = Num 0 then Num 1024 else parseInt rest)) \<and>
   ((\<exists>m. m \<noteq> 0 \<and> pin code = Num (of_int m)) \<or>
    pin code = PosInfinity \<or> pin code = NegInfinity) \<and>
   (pin code = Num (of_int n) \<longrightarrow>
      receiver_key code = Num (of_int (sgn n * (\<bar>n\<bar> mod 256))) \<and>
      - 255 \<le> sgn n * (\<bar>n\<bar> mod 256) \<and> sgn n * (\<bar>n\<bar> mod 256) \<le> 255 \<and>
      (0 \<le> n \<longrightarrow> receiver_key code = Num (of_int (n mod 256)) \<and>
                 key_in_byte_range (receiver_key code)) \<and>
      xor_scramble (receiver_key code) bs = map (\<lambda>b. b XOR word_of_int (n mod 256)) bs) \<and>
   (pin code = PosInfinity \<or> pin code = NegInfinity \<longrightarrow>
      receiver_key code = NaN \<and> xor_scramble (receiver_key code) bs = bs) \<and>
   (pin code = Num 1024 \<longrightarrow>
      receiver_key code = Num 0 \<and> xor_scramble (receiver_key code) bs = bs)"
proof -
  have 1: "sender_key code = receiver_key code" "receiver_key code = js_rem (pin code) (Num 256)"
    by (simp_all add: sender_key_def receiver_key_def)
  have 2: "CHR ''#'' \<notin> set code \<longrightarrow> pin code = Num 1024"
    by (simp add: pin_no_hash)
  have 3: "CHR ''#'' \<notin> set pre \<longrightarrow>
      pin (pre @ CHR ''#'' # rest) =
        (if parseInt rest = NaN \<or> parseInt rest = Num 0 then Num 1024 else parseInt rest)"
    by (cases "parseInt rest") (simp_all add: pin_after_hash js_or_def truthy_def)
  have 4: "(\<exists>m. m \<noteq> 0 \<and> pin code = Num (of_int m)) \<or>
    pin code = PosInfinity \<or> pin code = NegInfinity"
    by (rule pin_cases [of code]) auto
  have 5: "receiver_key code = Num (of_int (sgn n * (\<bar>n\<bar> mod 256))) \<and>
      - 255 \<le> sgn n * (\<bar>n\<bar> mod 256) \<and> sgn n * (\<bar>n\<bar> mod 256) \<le> 255 \<and>
      (0 \<le> n \<longrightarrow> receiver_key code = Num (of_int (n mod 256)) \<and>
                 key_in_byte_range (receiver_key code)) \<and>
      xor_scramble (receiver_key code) bs = map (\<lambda>b. b XOR word_of_int (n mod 256)) bs"
    if p: "pin code = Num (of_int n)"
  proof -
    note k = key_of_pin [OF p, THEN conjunct1]
    have x: "xor_scramble (receiver_key code) bs = map (\<lambda>b. b XOR word_of_int (n mod 256)) bs"
    proof -
      have "(word_of_int (sgn n * (\<bar>n\<bar> mod 256)) :: byte) = word_of_int (n mod 256)"
        by (rule byte_of_int_cong) (simp only: rem_mod mod_mod_trivial)
      then show ?thesis by (simp only: k xor_scramble_int)
    qed
    have nn: "receiver_key code = Num (of_int (n mod 256)) \<and> key_in_byte_range (receiver_key code)"
      if "0 \<le> n"
    proof -
      from that have "receiver_key code = Num (of_int (n mod 256))"
        unfolding receiver_key_def p by (rule js_rem_nonneg)
      moreover have "key_in_byte_range (Num (of_int (n mod 256)))"
        using mod_byte_bounds [of n] by (simp add: key_in_byte_range_def)
      ultimately show ?thesis by simp
    qed
    from k x nn rem_range [of n] show ?thesis by blast
  qed
  have 6: "receiver_key code = NaN \<and> xor_scramble (receiver_key code) bs = bs"
    if "pin code = PosInfinity \<or> pin code = NegInfinity"
    using key_of_infinite_pin [OF that] by (simp add: xor_scramble_NaN)
  have 7: "receiver_key code = Num 0 \<and> xor_scramble (receiver_key code) bs = bs"
    if "pin code = Num 1024"
  proof -
    from that have "pin code = Num (of_int 1024)" by simp
    from key_of_pin [OF this] show ?thesis by (simp add: xor_scramble_zero)
  qed
  from 1 2 3 4 5 6 7 show ?thesis by blast
qed

lemma pin_309: "pin (''abc-def#'' @ replicate 309 (CHR ''9'')) = PosInfinity"
proof -
  have "CHR ''#'' \<notin> set ''abc-def''" by simp
  from pin_after_hash [OF this, of "replicate 309 (CHR ''9'')"] show ?thesis
    by (simp add: parseInt_309 js_or_def truthy_def)
qed

theorem key_derivation_witness:
  "CHR ''#'' \<notin> set ''abc-def'' \<and> pin ''abc-def'' = Num 1024 \<and>
   receiver_key ''abc-def'' = Num 0 \<and> key_in_byte_range (receiver_key ''abc-def'') \<and>
   xor_scramble (receiver_key ''abc-def'') [1, 2] = [1, 2] \<and>
   parseInt ''zz'' = NaN \<and> pin (''abc-def'' @ CHR ''#'' # ''zz'') = Num 1024 \<and>
   pin (''abc-def#'' @ replicate 309 (CHR ''9'')) = PosInfinity \<and>
   receiver_key (''abc-def#'' @ replicate 309 (CHR ''9'')) = NaN \<and>
   xor_scramble (receiver_key (''abc-def#'' @ replicate 309 (CHR ''9''))) [1, 2] = [1, 2]"
proof -
  have h: "CHR ''#'' \<notin> set ''abc-def''" by simp
  have p: "parseInt ''zz'' = NaN"
    by (simp add: parseInt_def parse_signed_def parse_unsigned_def parse_digits_def
        is_js_space_def digit_value_def)
  note kd = key_derivation [of "''abc-def''" "''abc-def''" "''zz''" 1024 "[1, 2]"]
  from kd h have a1: "pin ''abc-def'' = Num 1024" by blast
  then have a1': "pin ''abc-def'' = Num (of_int 1024)" by simp
  have nn: "(0 :: int) \<le> 1024" by simp
  from kd a1 have a2: "receiver_key ''abc-def'' = Num 0"
    "xor_scramble (receiver_key ''abc-def'') [1, 2] = [1, 2]"
    by blast+
  from kd a1' nn have a3: "key_in_byte_range (receiver_key ''abc-def'')" by blast
  from kd have "CHR ''#'' \<notin> set ''abc-def'' \<longrightarrow>
      pin (''abc-def'' @ CHR ''#'' # ''zz'') =
        (if parseInt ''zz'' = NaN \<or> parseInt ''zz'' = Num 0 then Num 1024 else parseInt ''zz'')"
    by blast
  with h p have a4: "pin (''abc-def'' @ CHR ''#'' # ''zz'') = Num 1024" by simp
  from key_derivation [of "''abc-def#'' @ replicate 309 (CHR ''9'')" "[]" "[]" 0 "[1, 2]"] pin_309
  have b: "receiver_key (''abc-def#'' @ replicate 309 (CHR ''9'')) = NaN"
    "xor_scramble (receiver_key (''abc-def#'' @ replicate 309 (CHR ''9''))) [1, 2] = [1, 2]"
    by blast+
  from h p a1 a2 a3 a4 b pin_309 show ?thesis by blast
qed

lemma key_minus_12: "receiver_key ''abc-def#-12'' = Num (- 12)"
proof -
  have "parse_signed (dropWhile is_js_space (pinStr ''abc-def#-12'')) = Some (- 12)"
    by (simp add: pinStr_def parse_signed_def parse_unsigned_def parse_digits_def
        is_js_space_def digit_value_def)
  from key_eval(2) [OF this] show ?thesis by simp
qed

text \<open>
  The key of a code with a negative PIN text, which the connect form accepts, is not in
  \<open>[0, 255]\<close>: for \<^verbatim>\<open>abc-def#-12\<close> it is \<open>-12\<close>.
\<close>

theorem key_derivation_counterexample:
  "receiver_key ''abc-def#-12'' = Num (- 12) \<and> \<not> key_in_byte_range (receiver_key ''abc-def#-12'')"
  by (simp add: key_minus_12 key_in_byte_range_def)

text \<open>
  A PIN numeral of 16 digits is rounded before the reduction: \<open>2 ^ 53 + 1\<close> is read as
  \<open>2 ^ 53\<close>, and the key is 0 where the residue of the numeral is 1.
\<close>

lemma key_rounded_pin: "receiver_key ''abc-def#9007199254740993'' = Num 0"
proof -
  have "parse_signed (dropWhile is_js_space (pinStr ''abc-def#9007199254740993'')) =
          Some 9007199254740993"
    by (simp add: pinStr_def parse_signed_def parse_unsigned_def parse_digits_def
        is_js_space_def digit_value_def)
  then have "parseInt (pinStr ''abc-def#9007199254740993'') = to_number 9007199254740993"
    by (simp add: parseInt_def)
  also have "\<dots> = Num (of_int 9007199254740992)" by (simp add: to_number_def fl_tie)
  finally have "pin ''abc-def#9007199254740993'' = Num (of_int 9007199254740992)"
    by (simp add: pin_def js_or_def truthy_def)
  from key_of_pin [OF this] show ?thesis by simp
qed

section \<open>The sender's reply to a chunk request\<close>

lemma blob_slice_chunk:
  "offset \<le> length content \<Longrightarrow>
   blob_slice content offset (min (offset + n) (length content)) =
     take (min n (length content - offset)) (drop offset content)"
  by (simp add: blob_slice_def Let_def min_def)

lemma take_drop_nth:
  "offset + n \<le> length xs \<Longrightarrow> take n (drop offset xs) = map ((!) xs) [offset..<offset + n]"
  by (simp add: list_eq_iff_nth_eq)

lemma blob_slice_bytes:
  assumes "offset \<le> length content"
  shows "blob_slice content offset (min (offset + n) (length content)) =
           map ((!) content) [offset..<min (offset + n) (length content)]"
proof -
  let ?m = "min n (length content - offset)"
  have "offset + ?m = min (offset + n) (length content)" using assms by simp
  moreover have "offset + ?m \<le> length content" using assms by simp
  ultimately show ?thesis
    using take_drop_nth [of offset ?m content] blob_slice_chunk [OF assms, of n] by simp
qed

lemma key_byte_generateCode:
  assumes "CHR ''#'' \<notin> set str" and "p < 2 ^ 53"
  shows "(word_of_int (ToInt32 (sender_key (generateCode str p))) :: byte) = of_nat p"
proof -
  have "(word_of_int (ToInt32 (Num (of_int (int (p mod 256))))) :: byte) = word_of_int (int (p mod 256))"
    by (rule ToInt32_word)
  moreover have "(word_of_int (int (p mod 256)) :: byte) = word_of_int (int p)"
    by (rule byte_of_int_cong) (simp add: zmod_int)
  ultimately show ?thesis by (simp add: key_generateCode(1) [OF assms])
qed

text \<open>
  Claim C2. A sender that shares a file answers a chunk request for an offset \<open>o\<close> with
  \<open>0 \<le> o \<le> size\<close> with exactly one message, on the requesting connection: a chunk whose
  payload is the bytes \<open>[o, min (o + CHUNK_SIZE) size)\<close> of the file, each xor-ed with the
  sender's key as the xor sees it. For a share code that \<^verbatim>\<open>generateCode\<close> has built around
  the PIN \<open>p\<close>, each byte is xor-ed with the low eight bits of \<open>p\<close>. The payload has
  \<open>min CHUNK_SIZE (size - o)\<close> bytes, and \<open>CHUNK_SIZE\<close> is 16 KiB.
\<close>

theorem chunk_request_reply:
  assumes "fileToShareRef a = Some f" and "offset \<le> file_size f"
  shows "\<exists>a' payload.
           sender_on_data CHUNK_SIZE shareCode conn (RequestChunk offset) a =
             (a', [(conn, Chunk (Some payload) offset)]) \<and>
           payload = map (\<lambda>i. file_content f ! i XOR word_of_int (ToInt32 (sender_key shareCode)))
                       [offset..<min (offset + CHUNK_SIZE) (file_size f)] \<and>
           (CHR ''#'' \<notin> set str \<and> p < 2 ^ 53 \<and> shareCode = generateCode str p \<longrightarrow>
              payload = map (\<lambda>i. file_content f ! i XOR of_nat p)
                          [offset..<min (offset + CHUNK_SIZE) (file_size f)]) \<and>
           length payload = min CHUNK_SIZE (file_size f - offset) \<and>
           CHUNK_SIZE = 16384 \<and>
           fileToShareRef a' = Some f"
proof -
  let ?range = "[offset..<min (offset + CHUNK_SIZE) (file_size f)]"
  let ?payload = "map (\<lambda>i. file_content f ! i XOR word_of_int (ToInt32 (sender_key shareCode))) ?range"
  let ?a' = "a\<lparr>transferProgress :=
                 (if min (offset + CHUNK_SIZE) (file_size f) = file_size f then 100
                  else min 99 (percent (min (offset + CHUNK_SIZE) (file_size f)) (file_size f)))\<rparr>"
  have s: "blob_slice (file_content f) offset (min (offset + CHUNK_SIZE) (file_size f)) =
             map ((!) (file_content f)) ?range"
    using blob_slice_bytes [of offset "file_content f" CHUNK_SIZE] assms(2)
    by (simp add: file_size_def)
  have "xor_scramble (sender_key shareCode) (map ((!) (file_content f)) ?range) = ?payload"
    by (simp add: xor_scramble_word)
  with s have 1: "sender_on_data CHUNK_SIZE shareCode conn (RequestChunk offset) a =
             (?a', [(conn, Chunk (Some ?payload) offset)])"
    using assms(1) by (simp add: sender_on_data_def sendChunk_def Let_def)
  have 2: "?payload = map (\<lambda>i. file_content f ! i XOR of_nat p) ?range"
    if "CHR ''#'' \<notin> set str" "p < 2 ^ 53" "shareCode = generateCode str p"
    using key_byte_generateCode [OF that(1,2)] by (simp add: that(3))
  have 3: "length ?payload = min CHUNK_SIZE (file_size f - offset)"
    using assms(2) by simp
  have 4: "CHUNK_SIZE = 16384" by (simp add: CHUNK_SIZE_def)
  have 5: "fileToShareRef ?a' = Some f" using assms(1) by simp
  from 1 2 3 4 5 show ?thesis by blast
qed

lemma generateCode_example: "generateCode ''abcdef'' 1234 = ''abc-def#1234''"
  by (simp add: generateCode_def decimal.simps char_of_def bit_0 bit_Suc)

theorem chunk_request_reply_witness:
  "generateCode ''abcdef'' 1234 = ''abc-def#1234'' \<and>
   (\<exists>a'. sender_on_data CHUNK_SIZE ''abc-def#1234'' 7 (RequestChunk 2)
           (initial_app\<lparr>fileToShareRef :=
              Some \<lparr>file_name = ''a.bin'', file_content = [1, 2, 3, 4, 5], file_type = []\<rparr>\<rparr>) =
         (a', [(7, Chunk (Some [209, 214, 215]) 2)]))"
proof -
  let ?f = "\<lparr>file_name = ''a.bin'', file_content = [1, 2, 3, 4, 5 :: byte], file_type = []\<rparr>"
  let ?a = "initial_app\<lparr>fileToShareRef := Some ?f\<rparr>"
  have 1: "fileToShareRef ?a = Some ?f" by simp
  have 2: "2 \<le> file_size ?f" by (simp add: file_size_def)
  have 3: "[2..<min (2 + CHUNK_SIZE) (file_size ?f)] = [2, 3, 4]"
    by (simp add: file_size_def CHUNK_SIZE_def upt_conv_Cons)
  have 5: "map (\<lambda>i. file_content ?f ! i XOR of_nat 1234) [2, 3, 4] = [209, 214, 215 :: byte]"
    by simp
  from chunk_request_reply [OF 1 2, of "''abc-def#1234''" 7 "''abcdef''" 1234]
  obtain a' payload where
    r: "sender_on_data CHUNK_SIZE ''abc-def#1234'' 7 (RequestChunk 2) ?a =
          (a', [(7, Chunk (Some payload) 2)])"
    and p: "CHR ''#'' \<notin> set ''abcdef'' \<and> (1234 :: nat) < 2 ^ 53 \<and>
            ''abc-def#1234'' = generateCode ''abcdef'' 1234 \<longrightarrow>
            payload = map (\<lambda>i. file_content ?f ! i XOR of_nat 1234)
                        [2..<min (2 + CHUNK_SIZE) (file_size ?f)]"
    by blast
  have "payload = map (\<lambda>i. file_content ?f ! i XOR of_nat 1234)
                    [2..<min (2 + CHUNK_SIZE) (file_size ?f)]"
    by (rule p [THEN mp]) (simp add: generateCode_example)
  then have "payload = [209, 214, 215]" by (simp only: 3 5)
  with r generateCode_example show ?thesis by blast
qed

section \<open>A chunk that arrives before the metadata\<close>

text \<open>
  Claim C10, as the code has it. A chunk with a non-empty payload that arrives while no
  metadata is stored is de-obfuscated, appended to the chunk buffer and counted; no error
  notice is set, nothing is sent, and progress and completed file stay as they were. A
  metadata message that arrives later starts the transfer with an empty buffer and a
  byte count of 0: the early bytes are discarded, not counted into the transfer.
\<close>

theorem chunk_before_metadata:
  assumes "fileMetaRef a = None" and "buf \<noteq> []"
  shows "receiver_on_data receiveCode (Chunk (Some buf) offset) a =
           (a\<lparr>receivedChunksRef := receivedChunksRef a @ [xor_scramble (receiver_key receiveCode) buf],
              receivedBytesRef := receivedBytesRef a + length buf\<rparr>, []) \<and>
         (let a1 = fst (receiver_on_data receiveCode (Chunk (Some buf) offset) a);
              a2 = fst (receiver_on_data receiveCode (Metadata n s t) a1)
          in errorStatus a1 = errorStatus a \<and> transferProgress a1 = transferProgress a \<and>
             completedFile a1 = completedFile a \<and> fileMetaRef a1 = None \<and>
             receivedChunksRef a2 = [] \<and> receivedBytesRef a2 = 0 \<and>
             snd (receiver_on_data receiveCode (Metadata n s t) a1) = [RequestChunk 0])"
  using assms
  by (simp add: receiver_on_data_def Let_def length_xor_scramble xor_scramble_Nil_iff)

theorem chunk_before_metadata_witness:
  "receiver_on_data ''abc-def#1234'' (Chunk (Some [1, 2, 3]) 0) initial_app =
     (initial_app\<lparr>receivedChunksRef := [xor_scramble (receiver_key ''abc-def#1234'') [1, 2, 3]],
                   receivedBytesRef := 3\<rparr>, [])"
proof -
  have 1: "fileMetaRef initial_app = None" by (simp add: initial_app_def)
  have 2: "[1, 2, 3 :: byte] \<noteq> []" by simp
  from chunk_before_metadata [OF 1 2, of "''abc-def#1234''" 0 "''f''" 10 "''''"]
  show ?thesis by (simp add: initial_app_def)
qed

text \<open>
  Three bytes received before the metadata are counted, and gone once the metadata has
  arrived.
\<close>

theorem chunk_before_metadata_counterexample:
  "(let a1 = fst (receiver_on_data ''abc-def#1234'' (Chunk (Some [1, 2, 3]) 0) initial_app);
        a2 = fst (receiver_on_data ''abc-def#1234'' (Metadata ''f'' 10 []) a1)
    in receivedBytesRef a1 = 3 \<and> receivedBytesRef a2 = 0 \<and> receivedChunksRef a2 = [])"
  by (simp add: receiver_on_data_def Let_def length_xor_scramble xor_scramble_Nil_iff initial_app_def)

section \<open>Teardown, effects and rendering\<close>

lemma fold_conn_close:
  "fold conn_close cs a = a\<lparr>connsOpen := filter (\<lambda>c. c \<notin> set cs) (connsOpen a)\<rparr>"
proof (induction cs arbitrary: a)
  case Nil
  then show ?case by simp
next
  case (Cons c cs)
  have "filter (\<lambda>x. x \<notin> set cs) (removeAll c xs) = filter (\<lambda>x. x \<noteq> c \<and> x \<notin> set cs) xs"
    for xs :: "conn list"
    by (induction xs) auto
  with Cons show ?case by (simp add: conn_close_def)
qed

lemma resetConnection_eq:
  "resetConnection a =
     a\<lparr>connRef := None,
       peerRef := False,
       connsOpen := reset_conns a,
       isConnected := False,
       transferProgress := - 1,
       fileMeta := None,
       fileMetaRef := None,
       receivedChunksRef := [],
       receivedBytesRef := 0,
       completedFile := None,
       chatMessages := [],
       errorStatus := None,
       connTime := 0,
       selfDestructSec := 0,
       peerCount := 0,
       multiConnsRef := [],
       intervals := (case selfDestructRef a of
                       Some t \<Rightarrow> removeAll t (intervals a)
                     | None \<Rightarrow> intervals a),
       selfDestructRef := None\<rparr>"
  by (cases "connRef a"; cases "selfDestructRef a"; cases "peerRef a")
     (simp_all add: resetConnection_def reset_conns_def Let_def fold_conn_close conn_close_def
        clearInterval_def)

lemma reset_conns_subset: "set (reset_conns a) \<subseteq> set (connsOpen a)"
  by (auto simp: reset_conns_def split: option.splits)

lemma reset_conns_closed: "connRef a = Some c \<Longrightarrow> c \<notin> set (reset_conns a)"
  by (auto simp: reset_conns_def)

lemma reset_conns_reset: "reset_conns (resetConnection a) = reset_conns a"
  by (simp add: resetConnection_eq) (simp add: reset_conns_def)

lemma selfDestruct_effect_eq:
  "selfDestruct_effect a =
     (if transferProgress a \<ge> 100 \<and> isConnected a
      then a\<lparr>selfDestructSec := SELF_DESTRUCT_SEC,
             intervals := nextInterval a # intervals a,
             nextInterval := Suc (nextInterval a),
             selfDestructRef := Some (nextInterval a)\<rparr>
      else a)"
  by (simp add: selfDestruct_effect_def setInterval_def)

lemma selfDestruct_cleanup_eq:
  "selfDestruct_cleanup a =
     a\<lparr>intervals := (case selfDestructRef a of
                       Some t \<Rightarrow> removeAll t (intervals a)
                     | None \<Rightarrow> intervals a)\<rparr>"
  by (simp add: selfDestruct_cleanup_def clearInterval_def split: option.splits)

lemma render_same:
  "mode a = mode prev \<Longrightarrow> transferProgress a = transferProgress prev \<Longrightarrow>
   isConnected a = isConnected prev \<Longrightarrow> render prev a = a"
  by (simp add: render_def Let_def)

lemma selfDestruct_effect_idle:
  "transferProgress a < 100 \<or> \<not> isConnected a \<Longrightarrow> selfDestruct_effect a = a"
  by (auto simp: selfDestruct_effect_def)

lemma selfDestruct_cleanup_fields [simp]:
  "transferProgress (selfDestruct_cleanup a) = transferProgress a"
  "isConnected (selfDestruct_cleanup a) = isConnected a"
  by (simp_all add: selfDestruct_cleanup_eq)

lemma render_idle:
  assumes "mode a = mode prev" and "transferProgress a < 100 \<or> \<not> isConnected a"
  shows "render prev a =
     (if transferProgress a = transferProgress prev \<and> isConnected a = isConnected prev then a
      else selfDestruct_cleanup a)"
proof -
  have "selfDestruct_effect (selfDestruct_cleanup a) = selfDestruct_cleanup a"
    using assms(2) by (intro selfDestruct_effect_idle) simp
  with assms(1) show ?thesis by (simp add: render_def Let_def)
qed

lemma render_mode_changed:
  assumes m: "mode a \<noteq> mode prev"
  shows "render prev a = (resetConnection a)\<lparr>fileToShareRef := None\<rparr>"
proof -
  let ?a1 = "(resetConnection a)\<lparr>fileToShareRef := None\<rparr>"
  have 1: "selfDestructRef ?a1 = None" "transferProgress ?a1 = - 1"
    by (simp_all add: resetConnection_eq)
  have c: "selfDestruct_cleanup ?a1 = ?a1"
    unfolding selfDestruct_cleanup_def 1 by simp
  have e: "selfDestruct_effect ?a1 = ?a1"
    by (rule selfDestruct_effect_idle) (simp add: 1)
  show ?thesis
    using m unfolding render_def Let_def mode_cleanup_def by (simp add: c e)
qed

section \<open>The self-destruct countdown\<close>

lemma countdown_start:
  assumes "transferProgress a \<ge> 100" "isConnected a" "mode a = mode prev"
    and "transferProgress prev \<noteq> transferProgress a \<or> isConnected prev \<noteq> isConnected a"
  shows "render prev a =
           a\<lparr>selfDestructSec := SELF_DESTRUCT_SEC,
             intervals := nextInterval a #
               (case selfDestructRef a of Some t \<Rightarrow> removeAll t (intervals a) | None \<Rightarrow> intervals a),
             nextInterval := Suc (nextInterval a),
             selfDestructRef := Some (nextInterval a)\<rparr>"
proof -
  have "render prev a = selfDestruct_effect (selfDestruct_cleanup a)"
    using assms(3,4) by (auto simp: render_def Let_def)
  also have "\<dots> = (selfDestruct_cleanup a)
      \<lparr>selfDestructSec := SELF_DESTRUCT_SEC,
       intervals := nextInterval (selfDestruct_cleanup a) # intervals (selfDestruct_cleanup a),
       nextInterval := Suc (nextInterval (selfDestruct_cleanup a)),
       selfDestructRef := Some (nextInterval (selfDestruct_cleanup a))\<rparr>"
    using assms(1,2) by (simp add: selfDestruct_effect_eq)
  also have "\<dots> = a\<lparr>selfDestructSec := SELF_DESTRUCT_SEC,
             intervals := nextInterval a #
               (case selfDestructRef a of Some t \<Rightarrow> removeAll t (intervals a) | None \<Rightarrow> intervals a),
             nextInterval := Suc (nextInterval a),
             selfDestructRef := Some (nextInterval a)\<rparr>"
    by (simp add: selfDestruct_cleanup_eq)
  finally show ?thesis .
qed

lemma selfDestruct_fire_count:
  assumes "t \<in> set (intervals b)" "1 < selfDestructSec b"
  shows "selfDestruct_fire t b = b\<lparr>selfDestructSec := selfDestructSec b - 1\<rparr>"
  using assms by (simp add: selfDestruct_fire_def selfDestruct_tick_def render_same)

lemma countdown_running:
  assumes "t \<in> set (intervals b)" "selfDestructSec b = SELF_DESTRUCT_SEC" "k < 300"
  shows "(selfDestruct_fire t ^^ k) b = b\<lparr>selfDestructSec := SELF_DESTRUCT_SEC - int k\<rparr>"
  using assms(3)
proof (induction k)
  case 0
  with assms(2) show ?case by simp
next
  case (Suc k)
  then have ih: "(selfDestruct_fire t ^^ k) b = b\<lparr>selfDestructSec := SELF_DESTRUCT_SEC - int k\<rparr>"
    by simp
  have "selfDestruct_fire t (b\<lparr>selfDestructSec := SELF_DESTRUCT_SEC - int k\<rparr>) =
        b\<lparr>selfDestructSec := SELF_DESTRUCT_SEC - int k - 1\<rparr>"
    using Suc.prems assms(1)
    by (subst selfDestruct_fire_count) (simp_all add: SELF_DESTRUCT_SEC_def)
  with ih show ?case by (simp add: algebra_simps)
qed

lemma selfDestruct_fire_expire:
  assumes "t \<in> set (intervals b)" "selfDestructSec b = 1" "selfDestructRef b = Some t"
    and "100 \<le> transferProgress b"
  shows "selfDestruct_fire t b =
           (resetConnection b)\<lparr>mode := Idle, fileToShareRef :=
              (if mode b = Idle then fileToShareRef b else None)\<rparr>"
proof -
  let ?b' = "(resetConnection b)\<lparr>mode := Idle, selfDestructSec := 0\<rparr>"
  have f: "selfDestruct_fire t b = render b ?b'"
    using assms(1,2) by (simp add: selfDestruct_fire_def selfDestruct_tick_def)
  show ?thesis
  proof (cases "mode b = Idle")
    case True
    have "render b ?b' = selfDestruct_cleanup ?b'"
      using True assms(4) by (subst render_idle) (simp_all add: resetConnection_eq)
    also have "\<dots> = ?b'" by (simp add: selfDestruct_cleanup_eq resetConnection_eq)
    also have "\<dots> = (resetConnection b)\<lparr>mode := Idle, fileToShareRef := fileToShareRef b\<rparr>"
      using True by (simp add: resetConnection_eq)
    finally show ?thesis using f True by simp
  next
    case False
    have "render b ?b' = (resetConnection ?b')\<lparr>fileToShareRef := None\<rparr>"
      using False by (intro render_mode_changed) (simp add: resetConnection_eq)
    also have "\<dots> = (resetConnection b)\<lparr>mode := Idle, fileToShareRef := None\<rparr>"
      by (simp add: resetConnection_eq) (simp add: reset_conns_def)
    finally show ?thesis using f False by simp
  qed
qed

lemma manual_reset_render:
  "render b (resetConnection b) = resetConnection b"
proof -
  have "render b (resetConnection b) =
      (if transferProgress (resetConnection b) = transferProgress b \<and>
          isConnected (resetConnection b) = isConnected b
       then resetConnection b else selfDestruct_cleanup (resetConnection b))"
    by (intro render_idle) (simp_all add: resetConnection_eq)
  moreover have "selfDestruct_cleanup (resetConnection b) = resetConnection b"
    by (simp add: selfDestruct_cleanup_eq resetConnection_eq)
  ultimately show ?thesis by simp
qed

lemma selfDestruct_fire_cancelled:
  "t \<notin> set (intervals b) \<Longrightarrow> (selfDestruct_fire t ^^ j) b = b"
  by (induction j) (simp_all add: selfDestruct_fire_def)

lemma initial_app_fields [simp]:
  "mode initial_app = Idle" "isConnected initial_app = False"
  "transferProgress initial_app = - 1" "fileMetaRef initial_app = None"
  "selfDestructRef initial_app = None" "nextInterval initial_app = 0"
  "intervals initial_app = []" "connsOpen initial_app = []" "connRef initial_app = None"
  "peerRef initial_app = False" "multiConnsRef initial_app = []"
  "errorStatus initial_app = None" "receivedBytesRef initial_app = 0"
  "receivedChunksRef initial_app = []" "completedFile initial_app = None"
  "fileToShareRef initial_app = None" "fileMeta initial_app = None"
  by (simp_all add: initial_app_def)

text \<open>
  Claim C7. When the transfer has just reached Complete on an open connection (or the
  connection has just opened on a completed transfer), the countdown starts at 300 and
  its interval runs. After \<open>k < 300\<close> ticks the countdown shows \<open>300 - k\<close> and the session is
  untouched. The 300th tick tears the session down: mode Idle, not connected, metadata,
  chunk buffer, byte count, completed file and chat cleared, no interval left. A manual
  reset after \<open>k < 300\<close> ticks removes the interval, so that no later tick changes anything.
\<close>

theorem self_destruct_countdown:
  assumes "100 \<le> transferProgress a" and "isConnected a" and "mode a = mode prev"
    and "transferProgress prev \<noteq> transferProgress a \<or> isConnected prev \<noteq> isConnected a"
    and "k < 300"
  shows "(let t = nextInterval a;
              a0 = render prev a;
              ak = (selfDestruct_fire t ^^ k) a0;
              z = (selfDestruct_fire t ^^ 300) a0;
              r = render ak (resetConnection ak)
          in selfDestructSec a0 = 300 \<and> selfDestructRef a0 = Some t \<and> t \<in> set (intervals a0) \<and>
             selfDestructSec ak = 300 - int k \<and> t \<in> set (intervals ak) \<and>
             mode ak = mode a \<and> isConnected ak \<and> transferProgress ak = transferProgress a \<and>
             completedFile ak = completedFile a \<and> receivedChunksRef ak = receivedChunksRef a \<and>
             mode z = Idle \<and> \<not> isConnected z \<and> transferProgress z = - 1 \<and>
             fileMeta z = None \<and> fileMetaRef z = None \<and>
             receivedChunksRef z = [] \<and> receivedBytesRef z = 0 \<and> completedFile z = None \<and>
             chatMessages z = [] \<and> connRef z = None \<and> multiConnsRef z = [] \<and>
             selfDestructSec z = 0 \<and> selfDestructRef z = None \<and> t \<notin> set (intervals z) \<and>
             r = resetConnection ak \<and> mode r = mode a \<and> selfDestructRef r = None \<and>
             t \<notin> set (intervals r) \<and> (selfDestruct_fire t ^^ j) r = r)"
proof -
  define t where "t = nextInterval a"
  define a0 where "a0 = render prev a"
  define ak where "ak = (selfDestruct_fire t ^^ k) a0"
  define z where "z = (selfDestruct_fire t ^^ 300) a0"
  define r where "r = render ak (resetConnection ak)"
  have a0: "a0 = a\<lparr>selfDestructSec := SELF_DESTRUCT_SEC,
             intervals := t #
               (case selfDestructRef a of Some t \<Rightarrow> removeAll t (intervals a) | None \<Rightarrow> intervals a),
             nextInterval := Suc t,
             selfDestructRef := Some t\<rparr>"
    unfolding a0_def t_def by (rule countdown_start [OF assms(1-4)])
  have a0_fields: "selfDestructSec a0 = SELF_DESTRUCT_SEC" "selfDestructRef a0 = Some t"
    "t \<in> set (intervals a0)" "mode a0 = mode a" "isConnected a0" "transferProgress a0 = transferProgress a"
    "completedFile a0 = completedFile a" "receivedChunksRef a0 = receivedChunksRef a"
    using assms(2) by (simp_all add: a0)
  have ak: "ak = a0\<lparr>selfDestructSec := SELF_DESTRUCT_SEC - int k\<rparr>"
    unfolding ak_def by (rule countdown_running [OF a0_fields(3,1) assms(5)])
  have last: "(selfDestruct_fire t ^^ 299) a0 = a0\<lparr>selfDestructSec := SELF_DESTRUCT_SEC - int 299\<rparr>"
    by (rule countdown_running [OF a0_fields(3,1)]) simp
  let ?b = "a0\<lparr>selfDestructSec := SELF_DESTRUCT_SEC - int 299\<rparr>"
  have "z = selfDestruct_fire t ((selfDestruct_fire t ^^ 299) a0)"
    unfolding z_def by (simp add: numeral_eq_Suc)
  also have "\<dots> = selfDestruct_fire t ?b" by (simp only: last)
  also have "\<dots> = (resetConnection ?b)\<lparr>mode := Idle, fileToShareRef :=
              (if mode ?b = Idle then fileToShareRef ?b else None)\<rparr>"
    using a0_fields assms(1)
    by (intro selfDestruct_fire_expire) (simp_all add: SELF_DESTRUCT_SEC_def)
  finally have z: "z = (resetConnection ?b)\<lparr>mode := Idle, fileToShareRef :=
              (if mode ?b = Idle then fileToShareRef ?b else None)\<rparr>" .
  have z_fields: "mode z = Idle" "\<not> isConnected z" "transferProgress z = - 1"
    "fileMeta z = None" "fileMetaRef z = None" "receivedChunksRef z = []" "receivedBytesRef z = 0"
    "completedFile z = None" "chatMessages z = []" "connRef z = None" "multiConnsRef z = []"
    "selfDestructSec z = 0" "selfDestructRef z = None"
    by (simp_all add: z resetConnection_eq)
  have z_int: "t \<notin> set (intervals z)"
    using a0_fields(2) by (simp add: z resetConnection_eq)
  have r: "r = resetConnection ak" unfolding r_def by (rule manual_reset_render)
  have r_fields: "mode r = mode a" "selfDestructRef r = None" "t \<notin> set (intervals r)"
    using a0_fields by (simp_all add: r ak resetConnection_eq)
  have r_fix: "(selfDestruct_fire t ^^ j) r = r"
    by (rule selfDestruct_fire_cancelled [OF r_fields(3)])
  have ak_fields: "selfDestructSec ak = 300 - int k" "t \<in> set (intervals ak)"
    "mode ak = mode a" "isConnected ak" "transferProgress ak = transferProgress a"
    "completedFile ak = completedFile a" "receivedChunksRef ak = receivedChunksRef a"
    using a0_fields by (simp_all add: ak SELF_DESTRUCT_SEC_def)
  have "selfDestructSec a0 = 300" using a0_fields(1) by (simp add: SELF_DESTRUCT_SEC_def)
  with a0_fields ak_fields z_fields z_int r r_fields r_fix
  show ?thesis
    unfolding Let_def t_def [symmetric] a0_def [symmetric] ak_def [symmetric]
      z_def [symmetric] r_def [symmetric]
    by blast
qed

theorem self_destruct_countdown_witness:
  "(let a = initial_app\<lparr>mode := Receive, isConnected := True, transferProgress := 100\<rparr>;
        prev = initial_app\<lparr>mode := Receive, isConnected := True, transferProgress := 99\<rparr>;
        a0 = render prev a
    in 100 \<le> transferProgress a \<and> isConnected a \<and> mode a = mode prev \<and>
       transferProgress prev \<noteq> transferProgress a \<and> (299 :: nat) < 300 \<and>
       selfDestructSec a0 = 300 \<and>
       selfDestructSec ((selfDestruct_fire 0 ^^ 299) a0) = 1 \<and>
       mode ((selfDestruct_fire 0 ^^ 299) a0) = Receive \<and>
       mode ((selfDestruct_fire 0 ^^ 300) a0) = Idle \<and>
       transferProgress ((selfDestruct_fire 0 ^^ 300) a0) = - 1 \<and>
       0 \<notin> set (intervals ((selfDestruct_fire 0 ^^ 300) a0)))"
proof -
  let ?a = "initial_app\<lparr>mode := Receive, isConnected := True, transferProgress := 100\<rparr>"
  let ?prev = "initial_app\<lparr>mode := Receive, isConnected := True, transferProgress := 99\<rparr>"
  have h: "100 \<le> transferProgress ?a" "isConnected ?a" "mode ?a = mode ?prev"
    "transferProgress ?prev \<noteq> transferProgress ?a \<or> isConnected ?prev \<noteq> isConnected ?a"
    "(299 :: nat) < 300"
    by simp_all
  have n: "nextInterval ?a = 0" by simp
  from self_destruct_countdown [OF h, of 1] h
  show ?thesis unfolding Let_def n by simp
qed

section \<open>The receiver's data handler, case by case\<close>

lemma receiver_metadata_first:
  "fileMetaRef a = None \<Longrightarrow>
   receiver_on_data receiveCode (Metadata n s t) a =
     (a\<lparr>fileMeta := Some \<lparr>meta_name = n, meta_size = s, meta_type = t\<rparr>,
        fileMetaRef := Some \<lparr>meta_name = n, meta_size = s, meta_type = t\<rparr>,
        receivedChunksRef := [],
        receivedBytesRef := 0,
        transferProgress := 0\<rparr>, [RequestChunk 0])"
  by (simp add: receiver_on_data_def Let_def)

lemma receiver_metadata_later:
  "fileMetaRef a \<noteq> None \<Longrightarrow> receiver_on_data receiveCode (Metadata n s t) a = (a, [])"
  by (auto simp: receiver_on_data_def)

lemma receiver_chunk_missing:
  "receiver_on_data receiveCode (Chunk None offset) a =
     (a\<lparr>errorStatus := Some ''Data parsing error: Empty buffer received.''\<rparr>, [])"
  by (simp add: receiver_on_data_def)

lemma receiver_chunk_empty:
  "receiver_on_data receiveCode (Chunk (Some []) offset) a =
     (a\<lparr>errorStatus := Some ''Data parsing error: Received chunk has zero length.''\<rparr>, [])"
  by (simp add: receiver_on_data_def xor_scramble_def)

lemma receiver_chunk_no_meta:
  "fileMetaRef a = None \<Longrightarrow> buf \<noteq> [] \<Longrightarrow>
   receiver_on_data receiveCode (Chunk (Some buf) offset) a =
     (a\<lparr>receivedChunksRef := receivedChunksRef a @ [xor_scramble (receiver_key receiveCode) buf],
        receivedBytesRef := receivedBytesRef a + length buf\<rparr>, [])"
  by (simp add: receiver_on_data_def Let_def length_xor_scramble xor_scramble_Nil_iff)

lemma receiver_chunk_next:
  "fileMetaRef a = Some m \<Longrightarrow> buf \<noteq> [] \<Longrightarrow> receivedBytesRef a + length buf < meta_size m \<Longrightarrow>
   receiver_on_data receiveCode (Chunk (Some buf) offset) a =
     (a\<lparr>receivedChunksRef := receivedChunksRef a @ [xor_scramble (receiver_key receiveCode) buf],
        receivedBytesRef := receivedBytesRef a + length buf,
        transferProgress := min 99 (percent (receivedBytesRef a + length buf) (meta_size m))\<rparr>,
      [RequestChunk (receivedBytesRef a + length buf)])"
  by (simp add: receiver_on_data_def Let_def length_xor_scramble xor_scramble_Nil_iff)

lemma receiver_chunk_last:
  "fileMetaRef a = Some m \<Longrightarrow> buf \<noteq> [] \<Longrightarrow> \<not> receivedBytesRef a + length buf < meta_size m \<Longrightarrow>
   receiver_on_data receiveCode (Chunk (Some buf) offset) a =
     (a\<lparr>receivedChunksRef := receivedChunksRef a @ [xor_scramble (receiver_key receiveCode) buf],
        receivedBytesRef := receivedBytesRef a + length buf,
        completedFile :=
          Some \<lparr>blob = concat (receivedChunksRef a) @ xor_scramble (receiver_key receiveCode) buf,
                completed_name = meta_name m, completed_type = meta_type m\<rparr>,
        transferProgress := 100,
        sessionTransfers := Suc (sessionTransfers a)\<rparr>, [])"
  by (simp add: receiver_on_data_def Let_def length_xor_scramble xor_scramble_Nil_iff
      finalizeDownload_def)

lemma receiver_other:
  "receiver_on_data receiveCode RequestMetadata a = (a, [])"
  "receiver_on_data receiveCode (RequestChunk offset) a = (a, [])"
  "receiver_on_data receiveCode (Chat text) a = (a\<lparr>chatMessages := chatMessages a @ [(text, Peer)]\<rparr>, [])"
  by (simp_all add: receiver_on_data_def)

lemma receiver_on_data_cases:
  obtains
    (first) n s t where "m = Metadata n s t" "fileMetaRef a = None"
  | (later) n s t where "m = Metadata n s t" "fileMetaRef a \<noteq> None"
  | (missing) offset where "m = Chunk None offset"
  | (empty) offset where "m = Chunk (Some []) offset"
  | (early) buf offset where "m = Chunk (Some buf) offset" "buf \<noteq> []" "fileMetaRef a = None"
  | (advance) buf offset meta where "m = Chunk (Some buf) offset" "buf \<noteq> []"
      "fileMetaRef a = Some meta" "receivedBytesRef a + length buf < meta_size meta"
  | (final) buf offset meta where "m = Chunk (Some buf) offset" "buf \<noteq> []"
      "fileMetaRef a = Some meta" "\<not> receivedBytesRef a + length buf < meta_size meta"
  | (request_metadata) "m = RequestMetadata"
  | (request_chunk) offset where "m = RequestChunk offset"
  | (chat) body where "m = Chat body"
proof (cases m)
  case (Metadata n s t)
  then show ?thesis using first later by (cases "fileMetaRef a = None") blast+
next
  case (Chunk buffer offset)
  show ?thesis
  proof (cases buffer)
    case None
    with Chunk missing show ?thesis by blast
  next
    case (Some buf)
    note b = this
    show ?thesis
    proof (cases "buf = []")
      case True
      with Chunk b empty show ?thesis by blast
    next
      case False
      note ne = this
      show ?thesis
      proof (cases "fileMetaRef a")
        case None
        with Chunk b ne early show ?thesis by blast
      next
        case (Some meta)
        with Chunk b ne advance final show ?thesis
          by (cases "receivedBytesRef a + length buf < meta_size meta") blast+
      qed
    qed
  qed
qed (use request_metadata request_chunk chat in blast)+

lemmas receiver_on_data_simps =
  receiver_metadata_first receiver_metadata_later receiver_chunk_missing receiver_chunk_empty
  receiver_chunk_no_meta receiver_chunk_next receiver_chunk_last receiver_other

text \<open>What the handler never touches.\<close>

lemma receiver_on_data_frame:
  "mode (fst (receiver_on_data receiveCode m a)) = mode a \<and>
   isConnected (fst (receiver_on_data receiveCode m a)) = isConnected a \<and>
   connRef (fst (receiver_on_data receiveCode m a)) = connRef a \<and>
   connsOpen (fst (receiver_on_data receiveCode m a)) = connsOpen a \<and>
   intervals (fst (receiver_on_data receiveCode m a)) = intervals a \<and>
   nextInterval (fst (receiver_on_data receiveCode m a)) = nextInterval a \<and>
   selfDestructRef (fst (receiver_on_data receiveCode m a)) = selfDestructRef a"
  by (cases m a rule: receiver_on_data_cases) (simp_all add: receiver_on_data_simps)

lemma receiver_on_data_meta:
  "fileMetaRef (fst (receiver_on_data receiveCode m a)) =
     (case m of
        Metadata n s t \<Rightarrow>
          (if fileMetaRef a = None then Some \<lparr>meta_name = n, meta_size = s, meta_type = t\<rparr>
           else fileMetaRef a)
      | _ \<Rightarrow> fileMetaRef a)"
  by (cases m a rule: receiver_on_data_cases) (simp_all add: receiver_on_data_simps)

lemma receiver_on_data_out:
  "snd (receiver_on_data receiveCode m a) = [] \<or>
   (\<exists>offset. snd (receiver_on_data receiveCode m a) = [RequestChunk offset])"
  by (cases m a rule: receiver_on_data_cases) (simp_all add: receiver_on_data_simps)

section \<open>The handshake\<close>

lemma receiver_connected_eq:
  "receiveCode \<noteq> [] \<Longrightarrow>
   receiver_connected receiveCode conn a =
     (nextInterval a,
      (resetConnection a)
        \<lparr>errorStatus := None, transferProgress := 0, peerRef := True, connRef := Some conn,
         connsOpen := conn # reset_conns a, isConnected := True,
         intervals := nextInterval a # intervals (resetConnection a),
         nextInterval := Suc (nextInterval a)\<rparr>)"
  by (simp add: receiver_connected_def receiver_conn_open_def receiver_peer_open_def
      handleConnectReceiver_def setInterval_def resetConnection_eq)

lemma receiver_connected_inv:
  assumes "receiveCode \<noteq> []" and "receiver_connected receiveCode conn a = (h, r0)"
  shows "receiver_inv conn h r0" and "awaiting_metadata conn r0" and "h \<in> set (intervals r0)"
    and "transferProgress r0 = 0" and "fileMetaRef r0 = None" and "receivedBytesRef r0 = 0"
    and "receivedChunksRef r0 = []" and "completedFile r0 = None" and "errorStatus r0 = None"
    and "isConnected r0" and "mode r0 = mode a"
  using assms(2) unfolding receiver_connected_eq [OF assms(1)]
  by (auto simp: receiver_inv_def awaiting_metadata_def conn_open_def resetConnection_eq)

lemma inv_reset:
  assumes "receiver_inv conn h a"
  shows "receiver_inv conn h (resetConnection a)" and "\<not> conn_open conn (resetConnection a)"
proof -
  have c: "conn \<notin> set (reset_conns a)"
    using assms reset_conns_closed [of a conn] reset_conns_subset [of a]
    by (auto simp: receiver_inv_def conn_open_def)
  then show "\<not> conn_open conn (resetConnection a)"
    by (simp add: conn_open_def resetConnection_eq)
  with assms show "receiver_inv conn h (resetConnection a)"
    unfolding receiver_inv_def awaiting_metadata_def
    by (simp add: resetConnection_eq conn_open_def)
qed

lemma inv_effect:
  assumes "receiver_inv conn h a"
  shows "receiver_inv conn h (selfDestruct_effect (selfDestruct_cleanup a))"
    and "fileMetaRef (selfDestruct_effect (selfDestruct_cleanup a)) = fileMetaRef a"
    and "connsOpen (selfDestruct_effect (selfDestruct_cleanup a)) = connsOpen a"
proof -
  let ?c = "selfDestruct_cleanup a"
  have hc: "h \<in> set (intervals ?c) \<longleftrightarrow> h \<in> set (intervals a)"
    using assms by (cases "selfDestructRef a") (auto simp: selfDestruct_cleanup_eq receiver_inv_def)
  have c: "receiver_inv conn h ?c"
    using assms hc unfolding receiver_inv_def awaiting_metadata_def conn_open_def
    by (simp add: selfDestruct_cleanup_eq)
  show "receiver_inv conn h (selfDestruct_effect ?c)"
    using c unfolding receiver_inv_def awaiting_metadata_def conn_open_def
    by (auto simp: selfDestruct_effect_eq)
  show "fileMetaRef (selfDestruct_effect ?c) = fileMetaRef a"
    by (simp add: selfDestruct_effect_eq selfDestruct_cleanup_eq)
  show "connsOpen (selfDestruct_effect ?c) = connsOpen a"
    by (simp add: selfDestruct_effect_eq selfDestruct_cleanup_eq)
qed

lemma inv_render:
  assumes "receiver_inv conn h a"
  shows "receiver_inv conn h (render prev a)"
    and "awaiting_metadata conn (render prev a) \<Longrightarrow> awaiting_metadata conn a"
proof -
  have "receiver_inv conn h (render prev a) \<and>
        (awaiting_metadata conn (render prev a) \<longrightarrow> awaiting_metadata conn a)"
  proof (cases "mode a = mode prev")
    case True
    then have "render prev a = a \<or> render prev a = selfDestruct_effect (selfDestruct_cleanup a)"
      by (simp add: render_def Let_def)
    then show ?thesis
      using assms inv_effect [OF assms] by (auto simp: awaiting_metadata_def conn_open_def)
  next
    case False
    then have r: "render prev a = (resetConnection a)\<lparr>fileToShareRef := None\<rparr>"
      by (rule render_mode_changed)
    have "receiver_inv conn h ((resetConnection a)\<lparr>fileToShareRef := None\<rparr>)"
      using inv_reset(1) [OF assms]
      by (simp add: receiver_inv_def awaiting_metadata_def conn_open_def)
    moreover have "\<not> conn_open conn ((resetConnection a)\<lparr>fileToShareRef := None\<rparr>)"
      using inv_reset(2) [OF assms] by (simp add: conn_open_def)
    ultimately show ?thesis by (simp add: r awaiting_metadata_def)
  qed
  then show "receiver_inv conn h (render prev a)"
    and "awaiting_metadata conn (render prev a) \<Longrightarrow> awaiting_metadata conn a"
    by blast+
qed

lemma inv_event:
  assumes "receiver_inv conn h a"
  shows "receiver_inv conn h (fst (receiver_event receiveCode captured conn h ev a))"
    and "awaiting_metadata conn (fst (receiver_event receiveCode captured conn h ev a)) \<Longrightarrow>
         awaiting_metadata conn a"
proof -
  let ?a' = "fst (receiver_event receiveCode captured conn h ev a)"
  have "receiver_inv conn h ?a' \<and> (awaiting_metadata conn ?a' \<longrightarrow> awaiting_metadata conn a)"
  proof (cases ev)
    case HandshakeTick
    have "?a' = a \<or> (\<not> awaiting_metadata conn a \<and> ?a' = clearInterval h a)"
      using HandshakeTick
      by (auto simp: receiver_event_def handshake_tick_def awaiting_metadata_def)
    moreover have "\<not> awaiting_metadata conn a \<Longrightarrow> receiver_inv conn h (clearInterval h a)"
      using assms by (simp add: receiver_inv_def awaiting_metadata_def conn_open_def clearInterval_def)
    moreover have "awaiting_metadata conn (clearInterval h a) = awaiting_metadata conn a"
      by (simp add: awaiting_metadata_def conn_open_def clearInterval_def)
    ultimately show ?thesis using assms by auto
  next
    case (Incoming m)
    show ?thesis
    proof (cases "conn_open conn a")
      case False
      with Incoming assms show ?thesis by (simp add: receiver_event_def)
    next
      case True
      let ?b = "fst (receiver_on_data receiveCode m a)"
      have a': "?a' = render a ?b"
        using Incoming True by (simp add: receiver_event_def split_beta)
      have fm: "fileMetaRef ?b = None \<Longrightarrow> fileMetaRef a = None"
        by (cases m) (simp_all add: receiver_on_data_meta split: if_splits)
      have b: "receiver_inv conn h ?b"
        using assms receiver_on_data_frame [of receiveCode m a] fm
        by (auto simp: receiver_inv_def awaiting_metadata_def conn_open_def)
      have "awaiting_metadata conn ?b \<Longrightarrow> awaiting_metadata conn a"
        using receiver_on_data_frame [of receiveCode m a] fm
        by (simp add: awaiting_metadata_def conn_open_def)
      with inv_render [OF b, of a] show ?thesis by (auto simp: a')
    qed
  next
    case ChannelClosed
    let ?b = "receiver_on_close captured (conn_close conn a)"
    have a': "?a' = render a ?b" using ChannelClosed by (simp add: receiver_event_def)
    have nb: "\<not> conn_open conn ?b"
      by (simp add: receiver_on_close_def conn_close_def conn_open_def Let_def)
    have b: "receiver_inv conn h ?b"
      using assms nb unfolding receiver_inv_def awaiting_metadata_def
      by (simp add: receiver_on_close_def conn_close_def conn_open_def Let_def)
    from inv_render [OF b, of a] nb show ?thesis by (auto simp: a' awaiting_metadata_def)
  next
    case UserReset
    have a': "?a' = render a (resetConnection a)" using UserReset by (simp add: receiver_event_def)
    from inv_render [OF inv_reset(1) [OF assms], of a] inv_reset(2) [OF assms]
    show ?thesis by (auto simp: a' awaiting_metadata_def)
  next
    case SelfDestructTick
    show ?thesis
    proof (cases "selfDestructRef a")
      case None
      with SelfDestructTick assms show ?thesis by (simp add: receiver_event_def)
    next
      case (Some t)
      show ?thesis
      proof (cases "t \<in> set (intervals a)")
        case False
        with SelfDestructTick Some assms show ?thesis
          by (simp add: receiver_event_def selfDestruct_fire_def)
      next
        case True
        let ?b = "selfDestruct_tick a"
        have a': "?a' = render a ?b"
          using SelfDestructTick Some True by (simp add: receiver_event_def selfDestruct_fire_def)
        have b: "receiver_inv conn h ?b \<and> (awaiting_metadata conn ?b \<longrightarrow> awaiting_metadata conn a)"
        proof (cases "selfDestructSec a \<le> 1")
          case True
          have "receiver_inv conn h ((resetConnection a)\<lparr>mode := Idle, selfDestructSec := 0\<rparr>)"
            using inv_reset(1) [OF assms]
            by (simp add: receiver_inv_def awaiting_metadata_def conn_open_def)
          moreover have "\<not> conn_open conn ((resetConnection a)\<lparr>mode := Idle, selfDestructSec := 0\<rparr>)"
            using inv_reset(2) [OF assms] by (simp add: conn_open_def)
          ultimately show ?thesis using True by (simp add: selfDestruct_tick_def awaiting_metadata_def)
        next
          case False
          then show ?thesis using assms
            by (simp add: selfDestruct_tick_def receiver_inv_def awaiting_metadata_def conn_open_def)
        qed
        with inv_render [of conn h ?b a] show ?thesis by (auto simp: a')
      qed
    qed
  qed
  then show "receiver_inv conn h ?a'" and "awaiting_metadata conn ?a' \<Longrightarrow> awaiting_metadata conn a"
    by blast+
qed

lemma inv_after:
  assumes "receiver_inv conn h a"
  shows "receiver_inv conn h (receiver_after receiveCode captured conn h evs a)"
    and "awaiting_metadata conn (receiver_after receiveCode captured conn h evs a) \<Longrightarrow>
         awaiting_metadata conn a"
  using assms
proof (induction evs arbitrary: a)
  case Nil
  { case 1 then show ?case by simp }
  { case 2 then show ?case by simp }
next
  case (Cons ev evs)
  { case 1 then show ?case using Cons.IH(1) inv_event(1) by simp }
  { case 2 then show ?case using Cons.IH(2) inv_event by (metis receiver_after.simps(2)) }
qed

lemma handshake_tick_out:
  assumes "receiver_inv conn h a"
  shows "snd (receiver_event receiveCode captured conn h HandshakeTick a) =
           (if awaiting_metadata conn a then [RequestMetadata] else [])"
  using assms
  by (auto simp: receiver_event_def handshake_tick_def receiver_inv_def awaiting_metadata_def)

lemma request_metadata_only_by_tick:
  assumes "RequestMetadata \<in> set (snd (receiver_event receiveCode captured conn h ev a))"
  shows "ev = HandshakeTick"
proof (cases ev)
  case (Incoming m)
  with assms receiver_on_data_out [of receiveCode m a] show ?thesis
    by (auto simp: receiver_event_def split_beta split: if_splits)
qed (use assms in \<open>auto simp: receiver_event_def split: option.splits\<close>)

lemma render_fileMetaRef_Some:
  "fileMetaRef b = Some m \<Longrightarrow> mode b = mode prev \<Longrightarrow> fileMetaRef (render prev b) = Some m"
proof -
  assume m: "fileMetaRef b = Some m" and "mode b = mode prev"
  then have "render prev b = b \<or> render prev b = selfDestruct_effect (selfDestruct_cleanup b)"
    by (simp add: render_def Let_def)
  moreover have "fileMetaRef (selfDestruct_effect (selfDestruct_cleanup b)) = fileMetaRef b"
    by (simp add: selfDestruct_effect_eq selfDestruct_cleanup_eq)
  ultimately show ?thesis using m by auto
qed

lemma metadata_event_first:
  assumes "awaiting_metadata conn a"
  shows "snd (receiver_event receiveCode captured conn h (Incoming (Metadata n s t)) a) = [RequestChunk 0]"
    and "fileMetaRef (fst (receiver_event receiveCode captured conn h (Incoming (Metadata n s t)) a)) =
           Some \<lparr>meta_name = n, meta_size = s, meta_type = t\<rparr>"
proof -
  from assms have o: "conn_open conn a" and f: "fileMetaRef a = None"
    by (simp_all add: awaiting_metadata_def)
  show "snd (receiver_event receiveCode captured conn h (Incoming (Metadata n s t)) a) = [RequestChunk 0]"
    using o by (simp add: receiver_event_def receiver_metadata_first [OF f])
  have "fst (receiver_event receiveCode captured conn h (Incoming (Metadata n s t)) a) =
        render a (fst (receiver_on_data receiveCode (Metadata n s t) a))"
    using o by (simp add: receiver_event_def split_beta)
  moreover have "fileMetaRef (render a (fst (receiver_on_data receiveCode (Metadata n s t) a))) =
      Some \<lparr>meta_name = n, meta_size = s, meta_type = t\<rparr>"
    by (rule render_fileMetaRef_Some) (simp_all add: receiver_metadata_first [OF f])
  ultimately show "fileMetaRef (fst (receiver_event receiveCode captured conn h (Incoming (Metadata n s t)) a)) =
           Some \<lparr>meta_name = n, meta_size = s, meta_type = t\<rparr>"
    by simp
qed

lemma started_only_when_awaiting:
  assumes "started_transfer (ev, snd (receiver_event receiveCode captured conn h ev a))"
  shows "awaiting_metadata conn a \<and> (\<exists>n s t. ev = Incoming (Metadata n s t))"
proof -
  from assms obtain n s t where ev: "ev = Incoming (Metadata n s t)"
    by (cases "(ev, snd (receiver_event receiveCode captured conn h ev a))" rule: started_transfer.cases) auto
  with assms have out: "snd (receiver_event receiveCode captured conn h (Incoming (Metadata n s t)) a) = [RequestChunk 0]"
    by simp
  then have o: "conn_open conn a" by (auto simp: receiver_event_def split: if_splits)
  have "fileMetaRef a = None"
  proof (rule ccontr)
    assume "fileMetaRef a \<noteq> None"
    then have "receiver_on_data receiveCode (Metadata n s t) a = (a, [])"
      by (rule receiver_metadata_later)
    with out o show False by (simp add: receiver_event_def)
  qed
  with o ev show ?thesis by (auto simp: awaiting_metadata_def)
qed

lemma started_at_most_once:
  assumes "receiver_inv conn h a"
  shows "length (filter started_transfer (receiver_trace receiveCode captured conn h evs a))
           \<le> (if awaiting_metadata conn a then 1 else 0)"
  using assms
proof (induction evs arbitrary: a)
  case Nil
  then show ?case by simp
next
  case (Cons ev evs)
  let ?a' = "fst (receiver_event receiveCode captured conn h ev a)"
  let ?out = "snd (receiver_event receiveCode captured conn h ev a)"
  have inv': "receiver_inv conn h ?a'" by (rule inv_event(1) [OF Cons.prems])
  note ih = Cons.IH [OF inv']
  have tr: "receiver_trace receiveCode captured conn h (ev # evs) a =
            (ev, ?out) # receiver_trace receiveCode captured conn h evs ?a'"
    by (simp add: split_beta)
  show ?case
  proof (cases "started_transfer (ev, ?out)")
    case True
    from started_only_when_awaiting [OF True] obtain n s t
      where aw: "awaiting_metadata conn a" and ev: "ev = Incoming (Metadata n s t)" by blast
    have "fileMetaRef ?a' \<noteq> None"
      using metadata_event_first(2) [OF aw, of receiveCode captured h n s t] ev by simp
    then have "\<not> awaiting_metadata conn ?a'" by (simp add: awaiting_metadata_def)
    with ih aw True show ?thesis unfolding tr by simp
  next
    case False
    have "awaiting_metadata conn ?a' \<Longrightarrow> awaiting_metadata conn a"
      by (rule inv_event(2) [OF Cons.prems])
    with ih False show ?thesis unfolding tr by (auto split: if_splits)
  qed
qed

lemma started_exactly_once:
  assumes "receiver_inv conn h a" and "awaiting_metadata conn a"
    and "\<forall>ev \<in> set evs. ev = HandshakeTick \<or> (\<exists>n s t. ev = Incoming (Metadata n s t))"
    and "\<exists>n s t. Incoming (Metadata n s t) \<in> set evs"
  shows "length (filter started_transfer (receiver_trace receiveCode captured conn h evs a)) = 1"
  using assms
proof (induction evs arbitrary: a)
  case Nil
  then show ?case by simp
next
  case (Cons ev evs)
  let ?a' = "fst (receiver_event receiveCode captured conn h ev a)"
  let ?out = "snd (receiver_event receiveCode captured conn h ev a)"
  have inv': "receiver_inv conn h ?a'" by (rule inv_event(1) [OF Cons.prems(1)])
  have tr: "receiver_trace receiveCode captured conn h (ev # evs) a =
            (ev, ?out) # receiver_trace receiveCode captured conn h evs ?a'"
    by (simp add: split_beta)
  from Cons.prems(3) consider "ev = HandshakeTick" | n s t where "ev = Incoming (Metadata n s t)"
    by auto
  then show ?case
  proof cases
    case 1
    have "h \<in> set (intervals a)" using Cons.prems(1,2) by (auto simp: receiver_inv_def)
    then have a': "?a' = a" using 1 Cons.prems(2)
      by (simp add: receiver_event_def handshake_tick_def awaiting_metadata_def)
    have "length (filter started_transfer (receiver_trace receiveCode captured conn h evs a)) = 1"
      using Cons.prems 1 by (intro Cons.IH) auto
    with 1 show ?thesis unfolding tr a' by simp
  next
    case 2
    have out: "?out = [RequestChunk 0]"
      using metadata_event_first(1) [OF Cons.prems(2)] 2 by simp
    have "fileMetaRef ?a' \<noteq> None"
      using metadata_event_first(2) [OF Cons.prems(2), of receiveCode captured h n s t] 2 by simp
    then have "\<not> awaiting_metadata conn ?a'" by (simp add: awaiting_metadata_def)
    with started_at_most_once [OF inv', of receiveCode captured evs]
    have "length (filter started_transfer (receiver_trace receiveCode captured conn h evs ?a')) = 0"
      by simp
    with out 2 show ?thesis unfolding tr by simp
  qed
qed

text \<open>
  Claim C5. From the open connection on, whatever happens to the receiver: a firing of the
  500 ms handshake interval sends exactly one metadata request while no metadata is stored
  and the connection is open, and nothing otherwise; no other event sends a metadata
  request; once metadata is stored or the connection is closed this stays so, and no
  later firing sends anything. A metadata message that arrives when metadata is stored
  changes nothing and is not answered. Over any sequence of events at most one metadata
  message starts a transfer, and exactly one does when metadata replies arrive, however
  many.
\<close>

theorem handshake_and_first_metadata:
  assumes "receiveCode \<noteq> []" and "receiver_connected receiveCode conn a = (h, r0)"
  shows "awaiting_metadata conn r0 \<and> h \<in> set (intervals r0) \<and>
     (let b = receiver_after receiveCode captured conn h evs r0
      in snd (receiver_event receiveCode captured conn h HandshakeTick b) =
           (if awaiting_metadata conn b then [RequestMetadata] else []) \<and>
         (RequestMetadata \<in> set (snd (receiver_event receiveCode captured conn h ev b)) \<longrightarrow>
            ev = HandshakeTick \<and> awaiting_metadata conn b) \<and>
         (\<not> awaiting_metadata conn b \<longrightarrow>
            \<not> awaiting_metadata conn (receiver_after receiveCode captured conn h evs' b) \<and>
            snd (receiver_event receiveCode captured conn h HandshakeTick
                   (receiver_after receiveCode captured conn h evs' b)) = []) \<and>
         (fileMetaRef b \<noteq> None \<longrightarrow> receiver_on_data receiveCode (Metadata n s t) b = (b, []))) \<and>
     length (filter started_transfer (receiver_trace receiveCode captured conn h evs r0)) \<le> 1 \<and>
     ((\<forall>ev \<in> set evs. ev = HandshakeTick \<or> (\<exists>n s t. ev = Incoming (Metadata n s t))) \<and>
      (\<exists>n s t. Incoming (Metadata n s t) \<in> set evs) \<longrightarrow>
        length (filter started_transfer (receiver_trace receiveCode captured conn h evs r0)) = 1)"
proof -
  note init = receiver_connected_inv [OF assms]
  define b where "b = receiver_after receiveCode captured conn h evs r0"
  define b' where "b' = receiver_after receiveCode captured conn h evs' b"
  have ib: "receiver_inv conn h b" unfolding b_def by (rule inv_after(1) [OF init(1)])
  have ib': "receiver_inv conn h b'" unfolding b'_def by (rule inv_after(1) [OF ib])
  have 1: "snd (receiver_event receiveCode captured conn h HandshakeTick b) =
           (if awaiting_metadata conn b then [RequestMetadata] else [])"
    by (rule handshake_tick_out [OF ib])
  have 2: "RequestMetadata \<in> set (snd (receiver_event receiveCode captured conn h ev b)) \<longrightarrow>
            ev = HandshakeTick \<and> awaiting_metadata conn b"
    using request_metadata_only_by_tick [of receiveCode captured conn h ev b] 1
    by (auto split: if_splits)
  have 3: "\<not> awaiting_metadata conn b \<longrightarrow>
            \<not> awaiting_metadata conn b' \<and>
            snd (receiver_event receiveCode captured conn h HandshakeTick b') = []"
    using inv_after(2) [OF ib, of receiveCode captured evs'] handshake_tick_out [OF ib']
    by (auto simp: b'_def)
  have 4: "fileMetaRef b \<noteq> None \<longrightarrow> receiver_on_data receiveCode (Metadata n s t) b = (b, [])"
    by (simp add: receiver_metadata_later)
  have 5: "length (filter started_transfer (receiver_trace receiveCode captured conn h evs r0)) \<le> 1"
    using started_at_most_once [OF init(1), of receiveCode captured evs] by (simp split: if_splits)
  have 6: "(\<forall>ev \<in> set evs. ev = HandshakeTick \<or> (\<exists>n s t. ev = Incoming (Metadata n s t))) \<and>
      (\<exists>n s t. Incoming (Metadata n s t) \<in> set evs) \<longrightarrow>
        length (filter started_transfer (receiver_trace receiveCode captured conn h evs r0)) = 1"
    using started_exactly_once [OF init(1,2)] by blast
  from init(2,3) 1 2 3 4 5 6 show ?thesis
    unfolding Let_def b_def [symmetric] b'_def [symmetric] by blast
qed

theorem handshake_and_first_metadata_witness:
  "(let code = ''abc-def#1234'';
        h = fst (receiver_connected code 7 initial_app);
        r0 = snd (receiver_connected code 7 initial_app);
        reply = Incoming (Metadata ''f.bin'' 40960 []);
        b = receiver_after code (- 1) 7 h [HandshakeTick, reply] r0
    in code \<noteq> [] \<and> awaiting_metadata 7 r0 \<and>
       snd (receiver_event code (- 1) 7 h HandshakeTick r0) = [RequestMetadata] \<and>
       fileMetaRef b \<noteq> None \<and> \<not> awaiting_metadata 7 b \<and>
       snd (receiver_event code (- 1) 7 h HandshakeTick b) = [] \<and>
       receiver_on_data code (Metadata ''g.bin'' 7 []) b = (b, []) \<and>
       length (filter started_transfer
         (receiver_trace code (- 1) 7 h [HandshakeTick, reply, HandshakeTick, reply, reply] r0)) = 1)"
proof -
  define code where "code = ''abc-def#1234''"
  define h where "h = fst (receiver_connected code 7 initial_app)"
  define r0 where "r0 = snd (receiver_connected code 7 initial_app)"
  define reply where "reply = Incoming (Metadata ''f.bin'' 40960 [])"
  define b where "b = receiver_after code (- 1) 7 h [HandshakeTick, reply] r0"
  have c: "code \<noteq> []" by (simp add: code_def)
  have rc: "receiver_connected code 7 initial_app = (h, r0)" by (simp add: h_def r0_def)
  note init = receiver_connected_inv [OF c rc]
  have t: "fst (receiver_event code (- 1) 7 h HandshakeTick r0) = r0"
    using init(2,3) by (simp add: receiver_event_def handshake_tick_def awaiting_metadata_def)
  have fb: "fileMetaRef b \<noteq> None"
    using metadata_event_first(2) [OF init(2), of code "- 1" h "''f.bin''" 40960 "[]"]
    by (simp add: b_def t reply_def)
  then have nb: "\<not> awaiting_metadata 7 b" by (simp add: awaiting_metadata_def)
  have evs: "\<forall>ev \<in> set [HandshakeTick, reply, HandshakeTick, reply, reply].
               ev = HandshakeTick \<or> (\<exists>n s t. ev = Incoming (Metadata n s t))"
    "\<exists>n s t. Incoming (Metadata n s t) \<in> set [HandshakeTick, reply, HandshakeTick, reply, reply]"
    by (auto simp: reply_def)
  from handshake_and_first_metadata [OF c rc, of "- 1" "[]" HandshakeTick "[]" "''g.bin''" 7 "[]"] init(2)
  have A: "snd (receiver_event code (- 1) 7 h HandshakeTick r0) = [RequestMetadata]"
    by (simp add: Let_def)
  from handshake_and_first_metadata [OF c rc, of "- 1" "[HandshakeTick, reply]" HandshakeTick "[]"
      "''g.bin''" 7 "[]"] fb nb
  have B: "snd (receiver_event code (- 1) 7 h HandshakeTick b) = []"
    "receiver_on_data code (Metadata ''g.bin'' 7 []) b = (b, [])"
    unfolding Let_def b_def [symmetric] by auto
  from handshake_and_first_metadata [OF c rc, of "- 1" "[HandshakeTick, reply, HandshakeTick, reply, reply]"
      HandshakeTick "[]" "''g.bin''" 7 "[]"] evs
  have C: "length (filter started_transfer
         (receiver_trace code (- 1) 7 h [HandshakeTick, reply, HandshakeTick, reply, reply] r0)) = 1"
    by blast
  from c init(2) A fb nb B C show ?thesis
    unfolding Let_def code_def [symmetric] h_def [symmetric] r0_def [symmetric]
      reply_def [symmetric] b_def [symmetric]
    by blast
qed

section \<open>Closing the channel during a transfer\<close>

lemma render_idle_fields:
  assumes "mode b = mode prev" and "transferProgress b < 100 \<or> \<not> isConnected b"
  shows "errorStatus (render prev b) = errorStatus b"
    and "receivedBytesRef (render prev b) = receivedBytesRef b"
    and "fileMetaRef (render prev b) = fileMetaRef b"
    and "isConnected (render prev b) = isConnected b"
    and "transferProgress (render prev b) = transferProgress b"
    and "connsOpen (render prev b) = connsOpen b"
    and "mode (render prev b) = mode b"
  unfolding render_idle [OF assms] by (simp_all add: selfDestruct_cleanup_eq)

lemma close_event_notice:
  shows "errorStatus (fst (receiver_event receiveCode captured conn h ChannelClosed a)) =
     (if captured < 100 \<and> captured > 0 then Some ''Connection closed unexpectedly.''
      else errorStatus a)"
  and "\<not> isConnected (fst (receiver_event receiveCode captured conn h ChannelClosed a))"
  and "receivedBytesRef (fst (receiver_event receiveCode captured conn h ChannelClosed a)) =
         receivedBytesRef a"
  and "fileMetaRef (fst (receiver_event receiveCode captured conn h ChannelClosed a)) = fileMetaRef a"
proof -
  let ?b = "receiver_on_close captured (conn_close conn a)"
  have e: "fst (receiver_event receiveCode captured conn h ChannelClosed a) = render a ?b"
    by (simp add: receiver_event_def)
  have m: "mode ?b = mode a" and i: "transferProgress ?b < 100 \<or> \<not> isConnected ?b"
    by (simp_all add: receiver_on_close_def conn_close_def Let_def)
  note f = render_idle_fields [OF m i]
  show "errorStatus (fst (receiver_event receiveCode captured conn h ChannelClosed a)) =
     (if captured < 100 \<and> captured > 0 then Some ''Connection closed unexpectedly.''
      else errorStatus a)"
    unfolding e f by (simp add: receiver_on_close_def conn_close_def Let_def)
  show "\<not> isConnected (fst (receiver_event receiveCode captured conn h ChannelClosed a))"
    unfolding e f by (simp add: receiver_on_close_def conn_close_def Let_def)
  show "receivedBytesRef (fst (receiver_event receiveCode captured conn h ChannelClosed a)) =
         receivedBytesRef a"
    unfolding e f by (simp add: receiver_on_close_def conn_close_def Let_def)
  show "fileMetaRef (fst (receiver_event receiveCode captured conn h ChannelClosed a)) = fileMetaRef a"
    unfolding e f by (simp add: receiver_on_close_def conn_close_def Let_def)
qed

lemma metadata_event_state:
  assumes "awaiting_metadata conn a" and "transferProgress a = 0"
  shows "fst (receiver_event receiveCode captured conn h (Incoming (Metadata n s t)) a) =
     a\<lparr>fileMeta := Some \<lparr>meta_name = n, meta_size = s, meta_type = t\<rparr>,
        fileMetaRef := Some \<lparr>meta_name = n, meta_size = s, meta_type = t\<rparr>,
        receivedChunksRef := [],
        receivedBytesRef := 0,
        transferProgress := 0\<rparr>"
proof -
  from assms have o: "conn_open conn a" and f: "fileMetaRef a = None"
    by (simp_all add: awaiting_metadata_def)
  show ?thesis
    using o assms(2)
    by (simp add: receiver_event_def receiver_metadata_first [OF f] render_same)
qed

lemma chunk_event_fields:
  assumes "conn_open conn a" and "fileMetaRef a = Some m" and "buf \<noteq> []"
    and "receivedBytesRef a + length buf < meta_size m"
  shows "receivedBytesRef (fst (receiver_event receiveCode captured conn h (Incoming (Chunk (Some buf) offset)) a))
           = receivedBytesRef a + length buf"
    and "fileMetaRef (fst (receiver_event receiveCode captured conn h (Incoming (Chunk (Some buf) offset)) a))
           = Some m"
    and "errorStatus (fst (receiver_event receiveCode captured conn h (Incoming (Chunk (Some buf) offset)) a))
           = errorStatus a"
    and "transferProgress (fst (receiver_event receiveCode captured conn h (Incoming (Chunk (Some buf) offset)) a))
           = min 99 (percent (receivedBytesRef a + length buf) (meta_size m))"
proof -
  let ?b = "fst (receiver_on_data receiveCode (Chunk (Some buf) offset) a)"
  have e: "fst (receiver_event receiveCode captured conn h (Incoming (Chunk (Some buf) offset)) a) =
           render a ?b"
    using assms(1) by (simp add: receiver_event_def split_beta)
  note d = receiver_chunk_next [OF assms(2,3,4), of receiveCode offset]
  have m: "mode ?b = mode a" and i: "transferProgress ?b < 100 \<or> \<not> isConnected ?b"
    by (simp_all add: d min_less_iff_disj)
  note f = render_idle_fields [OF m i]
  show "receivedBytesRef (fst (receiver_event receiveCode captured conn h (Incoming (Chunk (Some buf) offset)) a))
           = receivedBytesRef a + length buf"
    unfolding e f by (simp add: d)
  show "fileMetaRef (fst (receiver_event receiveCode captured conn h (Incoming (Chunk (Some buf) offset)) a))
           = Some m"
    unfolding e f using assms(2) by (simp add: d)
  show "errorStatus (fst (receiver_event receiveCode captured conn h (Incoming (Chunk (Some buf) offset)) a))
           = errorStatus a"
    unfolding e f by (simp add: d)
  show "transferProgress (fst (receiver_event receiveCode captured conn h (Incoming (Chunk (Some buf) offset)) a))
           = min 99 (percent (receivedBytesRef a + length buf) (meta_size m))"
    unfolding e f by (simp add: d)
qed

text \<open>
  Claim C8 on the code. The connect form is shown only while \<^verbatim>\<open>transferProgress\<close> is \<open>-1\<close>, and
  the close handler tests the \<^verbatim>\<open>transferProgress\<close> of the render in which the form was
  submitted. A receiver that has 16384 of 40960 bytes when the channel closes is left
  without an error notice.
\<close>

theorem close_mid_transfer_unreported:
  "(let a = initial_app\<lparr>mode := Receive\<rparr>;
        code = ''abc-def#1234'';
        h = fst (receiver_connected code 7 a);
        r0 = snd (receiver_connected code 7 a);
        r = receiver_after code (transferProgress a) 7 h
              [Incoming (Metadata ''f.bin'' 40960 []),
               Incoming (Chunk (Some (replicate 16384 0)) 0)] r0;
        r' = receiver_after code (transferProgress a) 7 h [ChannelClosed] r
    in connect_form_shown a \<and>
       fileMetaRef r = Some \<lparr>meta_name = ''f.bin'', meta_size = 40960, meta_type = []\<rparr> \<and>
       receivedBytesRef r = 16384 \<and> errorStatus r = None \<and>
       receivedBytesRef r' = 16384 \<and> \<not> isConnected r' \<and> errorStatus r' = None)"
proof -
  define a where "a = initial_app\<lparr>mode := Receive\<rparr>"
  define code where "code = ''abc-def#1234''"
  define h where "h = fst (receiver_connected code 7 a)"
  define r0 where "r0 = snd (receiver_connected code 7 a)"
  define r1 where "r1 = fst (receiver_event code (transferProgress a) 7 h
                               (Incoming (Metadata ''f.bin'' 40960 [])) r0)"
  define r where "r = receiver_after code (transferProgress a) 7 h
              [Incoming (Metadata ''f.bin'' 40960 []),
               Incoming (Chunk (Some (replicate 16384 0)) 0)] r0"
  define r' where "r' = receiver_after code (transferProgress a) 7 h [ChannelClosed] r"
  have c: "code \<noteq> []" by (simp add: code_def)
  have rc: "receiver_connected code 7 a = (h, r0)" by (simp add: h_def r0_def)
  note init = receiver_connected_inv [OF c rc]
  have cap: "transferProgress a = - 1" and shown: "connect_form_shown a"
    by (simp_all add: a_def connect_form_shown_def)
  have r1: "r1 = r0\<lparr>fileMeta := Some \<lparr>meta_name = ''f.bin'', meta_size = 40960, meta_type = []\<rparr>,
        fileMetaRef := Some \<lparr>meta_name = ''f.bin'', meta_size = 40960, meta_type = []\<rparr>,
        receivedChunksRef := [],
        receivedBytesRef := 0,
        transferProgress := 0\<rparr>"
    unfolding r1_def by (rule metadata_event_state [OF init(2,4)])
  have o1: "conn_open 7 r1" using init(2) by (simp add: r1 awaiting_metadata_def conn_open_def)
  have m1: "fileMetaRef r1 = Some \<lparr>meta_name = ''f.bin'', meta_size = 40960, meta_type = []\<rparr>"
    by (simp add: r1)
  have ne: "replicate 16384 (0 :: byte) \<noteq> []" by simp
  have lt: "receivedBytesRef r1 + length (replicate 16384 (0 :: byte)) <
            meta_size \<lparr>meta_name = ''f.bin'', meta_size = 40960, meta_type = []\<rparr>"
    by (simp add: r1)
  have r_eq: "r = fst (receiver_event code (transferProgress a) 7 h
                        (Incoming (Chunk (Some (replicate 16384 0)) 0)) r1)"
    by (simp add: r_def r1_def)
  note ch = chunk_event_fields [OF o1 m1 ne lt, of code "transferProgress a" h 0]
  have rf: "fileMetaRef r = Some \<lparr>meta_name = ''f.bin'', meta_size = 40960, meta_type = []\<rparr>"
    "receivedBytesRef r = 16384" "errorStatus r = None"
    unfolding r_eq ch using init(9) by (simp_all add: r1)
  have r'_eq: "r' = fst (receiver_event code (transferProgress a) 7 h ChannelClosed r)"
    by (simp add: r'_def)
  have r'f: "receivedBytesRef r' = 16384" "\<not> isConnected r'" "errorStatus r' = None"
    using rf cap by (simp_all add: r'_eq close_event_notice)
  from shown rf r'f show ?thesis
    unfolding Let_def a_def [symmetric] code_def [symmetric] h_def [symmetric] r0_def [symmetric]
      r_def [symmetric] r'_def [symmetric]
    by blast
qed

section \<open>One delivery, phase by phase\<close>

lemma blob_slice_take_drop:
  "blob_slice content offset (min (offset + n) (length content)) = take n (drop offset content)"
  by (simp add: blob_slice_def Let_def min_def)

lemma sender_replies_metadata:
  "fileToShareRef s = Some f \<Longrightarrow>
   sender_on_data chunk_size code conn RequestMetadata s = (s, [(conn, metadata_msg f)])"
  by (simp add: sender_on_data_def metadata_msg_def)

lemma sender_replies_chunk:
  assumes "fileToShareRef s = Some f"
  shows "\<exists>s'. sender_on_data chunk_size code conn (RequestChunk (k * chunk_size)) s =
                (s', [(conn, chunk_msg chunk_size code f k)]) \<and>
              fileToShareRef s' = Some f"
  using assms blob_slice_take_drop [of "file_content f" "k * chunk_size" chunk_size]
  by (simp add: sender_on_data_def sendChunk_def Let_def file_size_def chunk_msg_def chunk_at_def)

lemma concat_chunks:
  "concat (map (chunk_at chunk_size f) [0..<k]) = take (k * chunk_size) (file_content f)"
proof (induction k)
  case 0
  then show ?case by simp
next
  case (Suc k)
  have "take (k * chunk_size) (file_content f) @ take chunk_size (drop (k * chunk_size) (file_content f))
        = take (k * chunk_size + chunk_size) (file_content f)"
    by (simp add: take_add)
  with Suc show ?case by (simp add: chunk_at_def add.commute)
qed

lemma length_chunk_at:
  "length (chunk_at chunk_size f k) = min chunk_size (file_size f - k * chunk_size)"
  by (simp add: chunk_at_def file_size_def)

lemma same_key: "sender_key code = receiver_key code"
  by (simp add: sender_key_def receiver_key_def)

lemma unscramble_chunk:
  "xor_scramble (receiver_key code) (xor_scramble (sender_key code) bs) = bs"
  by (simp add: same_key xor_scramble_cancel)

lemma chunk_count:
  assumes "0 < c" "k * c < s" "s \<le> Suc k * c"
  shows "(s + c - 1) div c = Suc k"
proof -
  have "Suc k * c \<le> s + c - 1" using assms by simp
  then have lo: "Suc k \<le> (s + c - 1) div c"
    using assms(1) by (simp add: less_eq_div_iff_mult_less_eq)
  have "s + c - 1 < Suc (Suc k) * c" using assms by simp
  then have "(s + c - 1) div c < Suc (Suc k)"
    using assms(1) by (simp add: div_less_iff_less_mult)
  with lo show ?thesis by simp
qed

lemma requested_offsets_log:
  "sent_by_receiver cfg = RequestMetadata # map (\<lambda>i. RequestChunk (i * c)) [0..<n] \<Longrightarrow>
   requested_offsets cfg = map (\<lambda>i. i * c) [0..<n]"
  by (simp add: requested_offsets_def concat_map_singleton comp_def)

lemma sent_chunks_log:
  "sent_by_sender cfg = metadata_msg f # map (chunk_msg c code f) [0..<n] \<Longrightarrow>
   sent_chunks cfg = map (\<lambda>i. xor_scramble (sender_key code) (chunk_at c f i)) [0..<n]"
  by (simp add: sent_chunks_def metadata_msg_def chunk_msg_def comp_def)

lemma deliver_to_sender:
  assumes "to_receiver cfg = []" and "to_sender cfg = m # ms"
    and "sender_on_data chunk_size code conn m (sender cfg) = (s', [(conn, reply)])"
  shows "deliver chunk_size code code conn cfg =
           cfg\<lparr>sender := s', to_sender := ms, to_receiver := [reply],
               sent_by_sender := sent_by_sender cfg @ [reply]\<rparr>"
  using assms by (simp add: deliver_def Let_def)

lemma deliver_to_receiver:
  assumes "to_receiver cfg = m # ms"
    and "receiver_on_data code m (receiver cfg) = (r', out)"
  shows "deliver chunk_size code code conn cfg =
           cfg\<lparr>receiver := r', to_receiver := ms, to_sender := to_sender cfg @ out,
               sent_by_receiver := sent_by_receiver cfg @ out\<rparr>"
  using assms by (simp add: deliver_def Let_def)

lemma deliver_quiescent:
  "to_receiver cfg = [] \<Longrightarrow> to_sender cfg = [] \<Longrightarrow> deliver chunk_size code code' conn cfg = cfg"
  by (simp add: deliver_def)

lemma step_handshake:
  assumes "in_phase c code f Handshake cfg"
  shows "in_phase c code f MetadataSent (deliver c code code conn cfg)"
proof -
  from assms have s: "fileToShareRef (sender cfg) = Some f"
    and q: "to_receiver cfg = []" "to_sender cfg = [RequestMetadata]"
    and a: "awaiting_reply cfg" and l: "sent_by_sender cfg = []"
    by (simp_all add: in_phase_def)
  note d = deliver_to_sender [OF q sender_replies_metadata [OF s]]
  show ?thesis
    using s a l unfolding d by (simp add: in_phase_def awaiting_reply_def)
qed

lemma step_metadata_sent:
  assumes "in_phase c code f MetadataSent cfg"
  shows "in_phase c code f (Requesting 0) (deliver c code code conn cfg)"
proof -
  from assms have s: "fileToShareRef (sender cfg) = Some f"
    and q: "to_receiver cfg = [Metadata (file_name f) (file_size f) (file_type f)]" "to_sender cfg = []"
    and a: "awaiting_reply cfg" and l: "sent_by_sender cfg = [metadata_msg f]"
    by (simp_all add: in_phase_def metadata_msg_def)
  from a have n: "fileMetaRef (receiver cfg) = None" by (simp add: awaiting_reply_def)
  note d = deliver_to_receiver [OF q(1) receiver_metadata_first [OF n]]
  show ?thesis
    using s a l q(2) unfolding d
    by (simp add: in_phase_def awaiting_reply_def receiving_def metadata_of_def expected_progress_def)
qed

lemma step_requesting:
  assumes "in_phase c code f (Requesting k) cfg"
  shows "in_phase c code f (Answering k) (deliver c code code conn cfg)"
proof -
  from assms have s: "fileToShareRef (sender cfg) = Some f"
    and q: "to_receiver cfg = []" "to_sender cfg = [RequestChunk (k * c)]"
    and r: "receiving c code f k cfg"
    and l: "sent_by_sender cfg = metadata_msg f # map (chunk_msg c code f) [0..<k]"
    by (simp_all add: in_phase_def)
  from sender_replies_chunk [OF s, of c code conn k] obtain s'
    where s': "sender_on_data c code conn (RequestChunk (k * c)) (sender cfg) =
                 (s', [(conn, chunk_msg c code f k)])"
      and f': "fileToShareRef s' = Some f" by blast
  note d = deliver_to_sender [OF q s']
  show ?thesis
    using f' r l unfolding d by (simp add: in_phase_def receiving_def)
qed

lemma step_answering_rejected:
  assumes "in_phase c code f (Answering k) cfg" and "file_size f \<le> k * c"
  shows "in_phase c code f Rejected (deliver c code code conn cfg)"
proof -
  from assms(1) have s: "fileToShareRef (sender cfg) = Some f"
    and q: "to_receiver cfg = [chunk_msg c code f k]" "to_sender cfg = []"
    and r: "receiving c code f k cfg"
    by (simp_all add: in_phase_def)
  from r assms(2) have k: "k = 0" and z: "file_size f = 0" by (auto simp: receiving_def)
  have e: "chunk_msg c code f k = Chunk (Some []) 0"
    using k z by (simp add: chunk_msg_def chunk_at_def file_size_def xor_scramble_def)
  note d = deliver_to_receiver [OF q(1) [unfolded e] receiver_chunk_empty]
  have o: "requested_offsets cfg = [0]"
    using r k requested_offsets_log [of cfg c 1] by (simp add: receiving_def)
  show ?thesis
    using s r k z q(2) o unfolding d
    by (simp add: in_phase_def receiving_def expected_progress_def requested_offsets_def)
qed

lemma step_answering_next:
  assumes "in_phase c code f (Answering k) cfg" and "Suc k * c < file_size f" and c: "0 < c"
  shows "in_phase c code f (Requesting (Suc k)) (deliver c code code conn cfg)"
proof -
  from assms(1) have s: "fileToShareRef (sender cfg) = Some f"
    and q: "to_receiver cfg = [Chunk (Some (xor_scramble (sender_key code) (chunk_at c f k))) (k * c)]"
      "to_sender cfg = []"
    and r: "receiving c code f k cfg"
    and l: "sent_by_sender cfg = metadata_msg f # map (chunk_msg c code f) [0..<Suc k]"
    by (simp_all add: in_phase_def chunk_msg_def)
  have len: "length (chunk_at c f k) = c"
    using assms(2) by (simp add: length_chunk_at)
  let ?buf = "xor_scramble (sender_key code) (chunk_at c f k)"
  have ne: "?buf \<noteq> []" using len c by (auto simp: xor_scramble_Nil_iff)
  have m: "fileMetaRef (receiver cfg) = Some (metadata_of f)"
    and b: "receivedBytesRef (receiver cfg) = k * c"
    using r by (simp_all add: receiving_def)
  have lt: "receivedBytesRef (receiver cfg) + length ?buf < meta_size (metadata_of f)"
    using assms(2) by (simp add: b len length_xor_scramble metadata_of_def)
  note d = deliver_to_receiver [OF q(1) receiver_chunk_next [OF m ne lt]]
  have p: "expected_progress (c + k * c) (file_size f) = min 99 (percent (c + k * c) (file_size f))"
    using c assms(2) by (simp add: expected_progress_def)
  show ?thesis
    using s r l q(2) assms(2) unfolding d
    by (simp add: in_phase_def receiving_def length_xor_scramble len unscramble_chunk
        metadata_of_def p add.commute)
qed

lemma step_answering_last:
  assumes "in_phase c code f (Answering k) cfg" and "k * c < file_size f"
    and "file_size f \<le> Suc k * c" and c: "0 < c"
  shows "in_phase c code f Complete (deliver c code code conn cfg)"
proof -
  from assms(1) have s: "fileToShareRef (sender cfg) = Some f"
    and q: "to_receiver cfg = [Chunk (Some (xor_scramble (sender_key code) (chunk_at c f k))) (k * c)]"
      "to_sender cfg = []"
    and r: "receiving c code f k cfg"
    and l: "sent_by_sender cfg = metadata_msg f # map (chunk_msg c code f) [0..<Suc k]"
    by (simp_all add: in_phase_def chunk_msg_def)
  have len: "length (chunk_at c f k) = file_size f - k * c"
    using assms(3) by (simp add: length_chunk_at)
  let ?buf = "xor_scramble (sender_key code) (chunk_at c f k)"
  have ne: "?buf \<noteq> []" using len assms(2) by (auto simp: xor_scramble_Nil_iff)
  have m: "fileMetaRef (receiver cfg) = Some (metadata_of f)"
    and b: "receivedBytesRef (receiver cfg) = k * c"
    and ch: "receivedChunksRef (receiver cfg) = map (chunk_at c f) [0..<k]"
    using r by (simp_all add: receiving_def)
  have ge: "\<not> receivedBytesRef (receiver cfg) + length ?buf < meta_size (metadata_of f)"
    using assms(2) by (simp add: b len length_xor_scramble metadata_of_def)
  note d = deliver_to_receiver [OF q(1) receiver_chunk_last [OF m ne ge]]
  have whole: "concat (map (chunk_at c f) [0..<k]) @ chunk_at c f k = file_content f"
  proof -
    have "concat (map (chunk_at c f) [0..<Suc k]) = take (Suc k * c) (file_content f)"
      by (rule concat_chunks)
    then show ?thesis using assms(3) by (simp add: file_size_def)
  qed
  have n: "(file_size f + c - 1) div c = Suc k"
    by (rule chunk_count [OF c assms(2,3)])
  define cfg' where "cfg' = deliver c code code conn cfg"
  have lr: "sent_by_receiver cfg' = RequestMetadata # map (\<lambda>i. RequestChunk (i * c)) [0..<Suc k]"
    using r unfolding cfg'_def d by (simp add: receiving_def)
  have ls: "sent_by_sender cfg' = metadata_msg f # map (chunk_msg c code f) [0..<Suc k]"
    using l unfolding cfg'_def d by simp
  have o: "requested_offsets cfg' = map (\<lambda>i. i * c) [0..<(file_size f + c - 1) div c]"
    unfolding n by (rule requested_offsets_log [OF lr])
  have un: "map (xor_scramble (receiver_key code)) (sent_chunks cfg') = map (chunk_at c f) [0..<Suc k]"
    unfolding sent_chunks_log [OF ls] by (simp add: unscramble_chunk comp_def)
  have rest: "fileToShareRef (sender cfg') = Some f" "to_sender cfg' = []" "to_receiver cfg' = []"
    "fileMetaRef (receiver cfg') = Some (metadata_of f)"
    "receivedBytesRef (receiver cfg') = file_size f"
    "receivedChunksRef (receiver cfg') = map (chunk_at c f) [0..<Suc k]"
    "transferProgress (receiver cfg') = 100"
    "completedFile (receiver cfg') =
       Some \<lparr>blob = file_content f, completed_name = file_name f, completed_type = file_type f\<rparr>"
    "errorStatus (receiver cfg') = None"
    using s r q(2) assms(2) unfolding cfg'_def d
    by (simp_all add: receiving_def length_xor_scramble len unscramble_chunk metadata_of_def whole)
  have "concat (receivedChunksRef (receiver cfg')) = file_content f"
    unfolding rest using whole by simp
  with rest o un assms(2) show ?thesis
    unfolding cfg'_def [symmetric] by (simp add: in_phase_def)
qed

lemma step_quiescent:
  assumes "in_phase c code f p cfg" and "p = Complete \<or> p = Rejected"
  shows "in_phase c code f p (deliver c code code conn cfg)"
proof -
  from assms have "to_receiver cfg = []" "to_sender cfg = []"
    by (auto simp: in_phase_def)
  then have "deliver c code code conn cfg = cfg" by (rule deliver_quiescent)
  with assms(1) show ?thesis by simp
qed

lemma step_phase:
  assumes "in_phase c code f p cfg" and c: "0 < c"
  shows "in_phase c code f (next_phase c (file_size f) p) (deliver c code code conn cfg)"
proof (cases p)
  case Handshake
  with step_handshake [of c code f cfg conn] assms(1) show ?thesis by (simp add: next_phase_def)
next
  case MetadataSent
  with step_metadata_sent [of c code f cfg conn] assms(1) show ?thesis by (simp add: next_phase_def)
next
  case (Requesting k)
  with step_requesting [of c code f k cfg conn] assms(1) show ?thesis by (simp add: next_phase_def)
next
  case (Answering k)
  with assms(1) have a: "in_phase c code f (Answering k) cfg" by simp
  consider "file_size f \<le> k * c" | "Suc k * c < file_size f"
    | "k * c < file_size f" "file_size f \<le> Suc k * c"
    by linarith
  then show ?thesis
  proof cases
    case 1
    with step_answering_rejected [OF a 1, of conn] Answering show ?thesis
      by (simp add: next_phase_def)
  next
    case 2
    then have "\<not> file_size f \<le> k * c" by simp
    with step_answering_next [OF a 2 c, of conn] Answering 2 show ?thesis
      by (simp add: next_phase_def)
  next
    case 3
    with step_answering_last [OF a 3 c, of conn] Answering show ?thesis
      by (simp add: next_phase_def)
  qed
next
  case Complete
  with step_quiescent [OF assms(1), of conn] show ?thesis by (simp add: next_phase_def)
next
  case Rejected
  with step_quiescent [OF assms(1), of conn] show ?thesis by (simp add: next_phase_def)
qed

lemma run_Suc:
  "run c code code' conn (Suc n) cfg = deliver c code code' conn (run c code code' conn n cfg)"
  by (simp add: run_def)

lemma run_phase:
  assumes "in_phase c code f Handshake cfg" and c: "0 < c"
  shows "in_phase c code f (phase_at c (file_size f) n) (run c code code conn n cfg)"
proof (induction n)
  case 0
  with assms(1) show ?case by (simp add: phase_at_def run_def)
next
  case (Suc n)
  from step_phase [OF Suc c, of conn] show ?case by (simp add: phase_at_def run_Suc)
qed

section \<open>The run of a transfer\<close>

lemma transfer_start_phase:
  assumes "fileToShareRef s = Some f" and "code \<noteq> []"
  shows "in_phase c code f Handshake (transfer_start s code rconn a)"
proof -
  obtain h r0 where rc: "receiver_connected code rconn a = (h, r0)"
    by (cases "receiver_connected code rconn a")
  note init = receiver_connected_inv [OF assms(2) rc]
  have t: "handshake_tick rconn h r0 = (r0, [RequestMetadata])"
    using init(2) by (simp add: handshake_tick_def awaiting_metadata_def)
  have "transfer_start s code rconn a =
          \<lparr>sender = s, receiver = r0, to_sender = [RequestMetadata], to_receiver = [],
           sent_by_receiver = [RequestMetadata], sent_by_sender = []\<rparr>"
    by (simp add: transfer_start_def rc t)
  with assms(1) init show ?thesis
    by (simp add: in_phase_def awaiting_reply_def)
qed

lemma phase_at_Suc: "phase_at c s (Suc n) = next_phase c s (phase_at c s n)"
  by (simp add: phase_at_def)

lemma next_phase_simps:
  "next_phase c s Handshake = MetadataSent"
  "next_phase c s MetadataSent = Requesting 0"
  "next_phase c s (Requesting k) = Answering k"
  "next_phase c s (Answering k) =
     (if s \<le> k * c then Rejected else if Suc k * c < s then Requesting (Suc k) else Complete)"
  "next_phase c s Complete = Complete"
  "next_phase c s Rejected = Rejected"
  by (simp_all add: next_phase_def)

lemma phase_at_2: "phase_at c s 2 = Requesting 0"
proof -
  have "phase_at c s (Suc (Suc 0)) = next_phase c s (next_phase c s Handshake)"
    by (simp add: phase_at_def)
  then show ?thesis by (simp add: next_phase_simps numeral_2_eq_2)
qed

lemma phase_at_requesting:
  assumes "k = 0 \<or> k * c < s"
  shows "phase_at c s (2 + 2 * k) = Requesting k"
  using assms
proof (induction k)
  case 0
  show ?case by (simp add: phase_at_2)
next
  case (Suc k)
  then have lt: "Suc k * c < s" by simp
  then have "k = 0 \<or> k * c < s" and nle: "\<not> s \<le> k * c" by simp_all
  from Suc.IH [OF this(1)] have r: "phase_at c s (2 + 2 * k) = Requesting k" .
  have i: "2 + 2 * Suc k = Suc (Suc (2 + 2 * k))" by simp
  have "phase_at c s (2 + 2 * Suc k) = next_phase c s (next_phase c s (Requesting k))"
    unfolding i phase_at_Suc r ..
  also have "\<dots> = Requesting (Suc k)" using lt nle by (simp only: next_phase_simps if_True if_False)
  finally show ?case .
qed

lemma phase_at_answering:
  assumes "k = 0 \<or> k * c < s"
  shows "phase_at c s (3 + 2 * k) = Answering k"
proof -
  have i: "3 + 2 * k = Suc (2 + 2 * k)" by simp
  show ?thesis
    unfolding i phase_at_Suc phase_at_requesting [OF assms] by (simp only: next_phase_simps)
qed

lemma chunk_count_bounds:
  fixes c s :: nat
  assumes "0 < c" "0 < s"
  shows "((s + c - 1) div c - 1) * c < s" and "s \<le> (s + c - 1) div c * c"
    and "0 < (s + c - 1) div c"
proof -
  define n where "n = (s + c - 1) div c"
  have m: "n * c + (s + c - 1) mod c = s + c - 1" by (simp add: n_def)
  have r: "(s + c - 1) mod c < c" using assms(1) by simp
  show "s \<le> (s + c - 1) div c * c" using m r unfolding n_def [symmetric] by linarith
  show pos: "0 < (s + c - 1) div c" using assms by (simp add: div_greater_zero_iff)
  have "(n - 1) * c = n * c - c" by (simp add: diff_mult_distrib)
  moreover have "n * c \<le> s + c - 1" using m by linarith
  ultimately show "((s + c - 1) div c - 1) * c < s"
    using assms unfolding n_def [symmetric] by linarith
qed

lemma phase_at_complete:
  assumes "0 < c" "0 < s"
  shows "phase_at c s (2 + 2 * ((s + c - 1) div c) + m) = Complete"
proof (induction m)
  case 0
  define n where "n = (s + c - 1) div c"
  note b = chunk_count_bounds [OF assms, folded n_def]
  obtain k where k: "n = Suc k" using b(3) by (cases n) simp_all
  from b k have lt: "k * c < s" and ge: "s \<le> Suc k * c" by simp_all
  then have nle: "\<not> s \<le> k * c" and nlt: "\<not> Suc k * c < s" by simp_all
  have i: "2 + 2 * n + 0 = Suc (3 + 2 * k)" by (simp add: k)
  have a: "phase_at c s (3 + 2 * k) = Answering k"
    using lt by (intro phase_at_answering) simp
  have "phase_at c s (2 + 2 * n + 0) = next_phase c s (Answering k)"
    unfolding i phase_at_Suc a ..
  also have "\<dots> = Complete" using nle nlt by (simp only: next_phase_simps if_False)
  finally show ?case unfolding n_def .
next
  case (Suc m)
  have i: "2 + 2 * ((s + c - 1) div c) + Suc m = Suc (2 + 2 * ((s + c - 1) div c) + m)" by simp
  show ?case unfolding i phase_at_Suc Suc by (simp only: next_phase_simps)
qed

lemma phase_at_rejected: "phase_at c 0 (4 + m) = Rejected"
proof (induction m)
  case 0
  have i: "4 + 0 = Suc (3 + 2 * 0)" by simp
  have a: "phase_at c 0 (3 + 2 * 0) = Answering 0" by (intro phase_at_answering) simp
  have "phase_at c 0 (4 + 0) = next_phase c 0 (Answering 0)"
    unfolding i phase_at_Suc a ..
  also have "\<dots> = Rejected" by (simp add: next_phase_simps)
  finally show ?case .
next
  case (Suc m)
  have i: "4 + Suc m = Suc (4 + m)" by simp
  show ?case unfolding i phase_at_Suc Suc by (simp only: next_phase_simps)
qed

lemma run_complete:
  assumes "fileToShareRef s = Some f" and "code \<noteq> []" and "0 < c" and "0 < file_size f"
  shows "in_phase c code f Complete
           (run c code code conn (2 + 2 * ((file_size f + c - 1) div c) + m)
              (transfer_start s code rconn a))"
  using run_phase [OF transfer_start_phase [OF assms(1,2)] assms(3),
      where conn = conn and n = "2 + 2 * ((file_size f + c - 1) div c) + m" and rconn1 = rconn
      and a1 = a]
  by (simp only: phase_at_complete [OF assms(3,4)])

lemma run_rejected:
  assumes "fileToShareRef s = Some f" and "code \<noteq> []" and "0 < c" and "file_size f = 0"
  shows "in_phase c code f Rejected (run c code code conn (4 + m) (transfer_start s code rconn a))"
  using run_phase [OF transfer_start_phase [OF assms(1,2)] assms(3),
      where conn = conn and n = "4 + m" and rconn1 = rconn and a1 = a]
  by (simp only: assms(4) phase_at_rejected)

lemma in_phase_CompleteD:
  assumes "in_phase c code f Complete cfg"
  shows "quiescent cfg"
    and "receivedChunksRef (receiver cfg) = map (xor_scramble (receiver_key code)) (sent_chunks cfg)"
    and "concat (receivedChunksRef (receiver cfg)) = file_content f"
    and "completedFile (receiver cfg) =
           Some \<lparr>blob = file_content f, completed_name = file_name f, completed_type = file_type f\<rparr>"
    and "receivedBytesRef (receiver cfg) = file_size f"
    and "transferProgress (receiver cfg) = 100"
    and "errorStatus (receiver cfg) = None"
    and "requested_offsets cfg = map (\<lambda>i. i * c) [0..<(file_size f + c - 1) div c]"
    and "fileMetaRef (receiver cfg) = Some (metadata_of f)"
    and "0 < file_size f"
  using assms unfolding in_phase_def quiescent_def phase.case by blast+

lemma in_phase_RejectedD:
  assumes "in_phase c code f Rejected cfg"
  shows "quiescent cfg"
    and "requested_offsets cfg = [0]"
    and "receivedChunksRef (receiver cfg) = []"
    and "completedFile (receiver cfg) = None"
    and "transferProgress (receiver cfg) = 0"
    and "errorStatus (receiver cfg) = Some ''Data parsing error: Received chunk has zero length.''"
    and "receivedBytesRef (receiver cfg) = 0"
    and "file_size f = 0"
    and "fileMetaRef (receiver cfg) = Some (metadata_of f)"
  using assms unfolding in_phase_def quiescent_def phase.case by blast+

text \<open>
  Reassembly of a non-empty file. Sender and receiver use the same room code, and
  \<open>chunk_size\<close> is positive. The run reaches, after \<open>2 + 2 * \<lceil>size / chunk_size\<rceil>\<close>
  deliveries, a configuration with no message in flight in which the received chunks are
  the sent chunks, de-obfuscated, in the order of the requests, their concatenation is
  the content of the file, and the completed blob is that content; the configuration does
  not change afterwards.
\<close>

lemma nonempty_transfer_reassembles:
  assumes "fileToShareRef s = Some f" and "code \<noteq> []" and "0 < chunk_size"
    and "0 < file_size f"
  shows "(let cfg = run chunk_size code code conn
                        (2 + 2 * ((file_size f + chunk_size - 1) div chunk_size) + m)
                        (transfer_start s code rconn a)
          in quiescent cfg \<and>
             receivedChunksRef (receiver cfg) =
               map (xor_scramble (receiver_key code)) (sent_chunks cfg) \<and>
             concat (receivedChunksRef (receiver cfg)) = file_content f \<and>
             completedFile (receiver cfg) =
               Some \<lparr>blob = file_content f, completed_name = file_name f,
                     completed_type = file_type f\<rparr> \<and>
             receivedBytesRef (receiver cfg) = file_size f \<and>
             transferProgress (receiver cfg) = 100 \<and>
             errorStatus (receiver cfg) = None)"
proof -
  note d = in_phase_CompleteD [OF run_complete [OF assms, of conn m rconn a]]
  show ?thesis unfolding Let_def using d by blast
qed

text \<open>
  An empty file. The receiver requests offset 0 and the sender answers with a chunk of
  length zero. The handler of the connect form rejects that chunk; the handlers of the
  other two receive paths, in the same state, complete the download with an empty blob.
\<close>

lemma empty_chunk_in_flight:
  assumes "fileToShareRef s = Some f" and "code \<noteq> []" and "0 < c" and "file_size f = 0"
  shows "to_receiver (run c code code conn 3 (transfer_start s code rconn a)) = [Chunk (Some []) 0]"
    and "fileMetaRef (receiver (run c code code conn 3 (transfer_start s code rconn a))) =
           Some (metadata_of f)"
    and "receivedBytesRef (receiver (run c code code conn 3 (transfer_start s code rconn a))) = 0"
    and "receivedChunksRef (receiver (run c code code conn 3 (transfer_start s code rconn a))) = []"
    and "errorStatus (receiver (run c code code conn 3 (transfer_start s code rconn a))) = None"
    and "requested_offsets (run c code code conn 3 (transfer_start s code rconn a)) = [0]"
proof -
  let ?cfg = "run c code code conn 3 (transfer_start s code rconn a)"
  have i: "(3 :: nat) = 3 + 2 * 0" by simp
  have "phase_at c 0 3 = Answering 0"
    by (subst i, rule phase_at_answering) simp
  with run_phase [OF transfer_start_phase [OF assms(1,2)] assms(3),
      where conn = conn and n = 3 and rconn1 = rconn and a1 = a]
  have p: "in_phase c code f (Answering 0) ?cfg" by (simp only: assms(4))
  have e: "chunk_msg c code f 0 = Chunk (Some []) 0"
    using assms(4) by (simp add: chunk_msg_def chunk_at_def file_size_def xor_scramble_def)
  from p have q: "to_receiver ?cfg = [chunk_msg c code f 0]" and r: "receiving c code f 0 ?cfg"
    by (simp_all add: in_phase_def)
  from q e show "to_receiver ?cfg = [Chunk (Some []) 0]" by simp
  from r show "fileMetaRef (receiver ?cfg) = Some (metadata_of f)"
    and "receivedBytesRef (receiver ?cfg) = 0"
    and "receivedChunksRef (receiver ?cfg) = []"
    and "errorStatus (receiver ?cfg) = None"
    by (simp_all add: receiving_def)
  from r show "requested_offsets ?cfg = [0]"
    by (simp add: receiving_def requested_offsets_def)
qed

lemma deliver_receiver_state:
  assumes "to_receiver cfg = [m]"
  shows "receiver (deliver c code code conn cfg) = fst (receiver_on_data code m (receiver cfg))"
  using assms by (simp add: deliver_def split_beta)

lemma empty_chunk_completes_elsewhere:
  assumes "fileMetaRef r = Some m" and "meta_size m = 0"
    and "receivedBytesRef r = 0" and "receivedChunksRef r = []"
  shows "autojoin_on_data code (Chunk (Some []) offset) r =
           (finalizeDownload (meta_name m) (meta_type m)
              (r\<lparr>receivedChunksRef := [[]], receivedBytesRef := 0, transferProgress := 100\<rparr>), [])"
    and "connectToDevice_on_data code (Chunk (Some []) offset) r =
           (finalizeDownload (meta_name m) (meta_type m)
              (r\<lparr>receivedChunksRef := [[]], receivedBytesRef := 0, transferProgress := 100\<rparr>), [])"
  using assms
  by (simp_all add: autojoin_on_data_def connectToDevice_on_data_def Let_def xor_scramble_def)

text \<open>
  Claim C1 on the code. A sender shares an empty file and a receiver joins through the
  connect form, both with the code \<^verbatim>\<open>abc-def#1234\<close>. After three deliveries the receiver
  holds the metadata, has requested offset 0, and the empty chunk is in flight. The fourth
  delivery hands it to the handler of the connect form, which sets the error notice: no
  message is in flight any more, there is no completed file, and the progress is 0, not
  100. Handed to the handler of either of the other two receive paths in the same state,
  the same chunk completes the download: the completed file is the empty blob, the
  progress is 100, and no error notice is set.
\<close>

theorem empty_file_rejected_by_connect_form:
  "(let e = initial_app\<lparr>mode := Send, fileToShareRef :=
              Some \<lparr>file_name = ''e.bin'', file_content = [], file_type = []\<rparr>\<rparr>;
        a = initial_app\<lparr>mode := Receive\<rparr>;
        code = ''abc-def#1234'';
        cfg3 = run CHUNK_SIZE code code 3 3 (transfer_start e code 7 a);
        cfg4 = run CHUNK_SIZE code code 3 4 (transfer_start e code 7 a);
        r = receiver cfg3;
        r1 = fst (autojoin_on_data code (Chunk (Some []) 0) r);
        r2 = fst (connectToDevice_on_data code (Chunk (Some []) 0) r)
    in fileMetaRef r = Some \<lparr>meta_name = ''e.bin'', meta_size = 0, meta_type = []\<rparr> \<and>
       requested_offsets cfg3 = [0] \<and>
       to_receiver cfg3 = [Chunk (Some []) 0] \<and>
       receiver cfg4 = fst (receiver_on_data code (Chunk (Some []) 0) r) \<and>
       quiescent cfg4 \<and>
       completedFile (receiver cfg4) = None \<and>
       transferProgress (receiver cfg4) = 0 \<and>
       errorStatus (receiver cfg4) = Some ''Data parsing error: Received chunk has zero length.'' \<and>
       completedFile r1 = Some \<lparr>blob = [], completed_name = ''e.bin'', completed_type = []\<rparr> \<and>
       transferProgress r1 = 100 \<and> errorStatus r1 = None \<and>
       completedFile r2 = Some \<lparr>blob = [], completed_name = ''e.bin'', completed_type = []\<rparr> \<and>
       transferProgress r2 = 100 \<and> errorStatus r2 = None)"
proof -
  let ?g = "\<lparr>file_name = ''e.bin'', file_content = [] :: byte list, file_type = []\<rparr>"
  define e where "e = initial_app\<lparr>mode := Send, fileToShareRef := Some ?g\<rparr>"
  define a where "a = initial_app\<lparr>mode := Receive\<rparr>"
  define code where "code = ''abc-def#1234''"
  define cfg3 where "cfg3 = run CHUNK_SIZE code code 3 3 (transfer_start e code 7 a)"
  define cfg4 where "cfg4 = run CHUNK_SIZE code code 3 4 (transfer_start e code 7 a)"
  define r where "r = receiver cfg3"
  define r1 where "r1 = fst (autojoin_on_data code (Chunk (Some []) 0) r)"
  define r2 where "r2 = fst (connectToDevice_on_data code (Chunk (Some []) 0) r)"
  have h: "fileToShareRef e = Some ?g" "code \<noteq> []" "0 < CHUNK_SIZE" "file_size ?g = 0"
    by (simp_all add: e_def code_def CHUNK_SIZE_def file_size_def)
  note t = empty_chunk_in_flight [OF h, of 3 7 a, folded cfg3_def, folded r_def]
  have m: "fileMetaRef r = Some \<lparr>meta_name = ''e.bin'', meta_size = 0, meta_type = []\<rparr>"
    using t(2) by (simp add: metadata_of_def file_size_def)
  have s: "cfg4 = deliver CHUNK_SIZE code code 3 cfg3"
    by (simp add: cfg4_def cfg3_def run_def eval_nat_numeral)
  have d: "receiver cfg4 = fst (receiver_on_data code (Chunk (Some []) 0) r)"
    unfolding s r_def by (rule deliver_receiver_state [OF t(1)])
  have i: "4 + 0 = (4 :: nat)" by simp
  note f = in_phase_RejectedD [OF run_rejected [OF h, of 3 0 7 a], unfolded i, folded cfg4_def]
  have z: "meta_size \<lparr>meta_name = ''e.bin'', meta_size = 0, meta_type = []\<rparr> = 0" by simp
  note c = empty_chunk_completes_elsewhere [OF m z t(3,4), of code 0]
  have c1: "completedFile r1 = Some \<lparr>blob = [], completed_name = ''e.bin'', completed_type = []\<rparr>"
    "transferProgress r1 = 100" "errorStatus r1 = None"
    unfolding r1_def c(1) using t(5) by (simp_all add: finalizeDownload_def)
  have c2: "completedFile r2 = Some \<lparr>blob = [], completed_name = ''e.bin'', completed_type = []\<rparr>"
    "transferProgress r2 = 100" "errorStatus r2 = None"
    unfolding r2_def c(2) using t(5) by (simp_all add: finalizeDownload_def)
  from m t(6) t(1) d f(1,4,5,6) c1 c2 show ?thesis
    unfolding Let_def e_def [symmetric] a_def [symmetric] code_def [symmetric]
      cfg3_def [symmetric] cfg4_def [symmetric] r_def [symmetric] r1_def [symmetric]
      r2_def [symmetric]
    by blast
qed

section \<open>Progress along the run\<close>

lemma percent_zero: "percent 0 s = 0"
proof -
  have "\<lfloor>(1 :: rat) / 2\<rfloor> = 0" by (rule floor_unique) simp_all
  then show ?thesis by (simp add: percent_def js_div_def js_mul_def Math_round_def)
qed

lemma expected_progress_bounds: "0 \<le> expected_progress b s" "expected_progress b s \<le> 100"
  using percent_nonneg [of b s] by (simp_all add: expected_progress_def min_le_iff_disj)

lemma expected_progress_mono:
  assumes "b \<le> b'"
  shows "expected_progress b s \<le> expected_progress b' s"
proof (cases "b = 0")
  case True
  with expected_progress_bounds(1) [of b' s] show ?thesis by (simp add: expected_progress_def)
next
  case False
  with assms have b': "b' \<noteq> 0" by simp
  show ?thesis
  proof (cases "b' < s")
    case True
    with assms have "b < s" by simp
    with True False b' percent_mono [OF assms, of s] show ?thesis
      by (simp add: expected_progress_def)
  next
    case False
    with b' have "expected_progress b' s = 100" by (simp add: expected_progress_def)
    with expected_progress_bounds(2) [of b s] show ?thesis by simp
  qed
qed

lemma expected_progress_below:
  "b < s \<Longrightarrow> expected_progress b s = min 99 (percent b s)"
  by (simp add: expected_progress_def percent_zero)

lemma expected_progress_lt_100: "b = 0 \<or> b < s \<Longrightarrow> expected_progress b s < 100"
  by (auto simp: expected_progress_def)

text \<open>The receiver's side of a configuration in a given phase.\<close>

lemma in_phase_progress:
  assumes "in_phase c code f p cfg"
  shows "transferProgress (receiver cfg) =
           (case p of
              Handshake \<Rightarrow> 0
            | MetadataSent \<Rightarrow> 0
            | Requesting k \<Rightarrow> expected_progress (k * c) (file_size f)
            | Answering k \<Rightarrow> expected_progress (k * c) (file_size f)
            | Complete \<Rightarrow> 100
            | Rejected \<Rightarrow> 0)"
  using assms by (cases p) (simp_all add: in_phase_def awaiting_reply_def receiving_def)

lemma in_phase_bytes:
  assumes "in_phase c code f p cfg"
  shows "receivedBytesRef (receiver cfg) =
           (case p of
              Handshake \<Rightarrow> 0
            | MetadataSent \<Rightarrow> 0
            | Requesting k \<Rightarrow> k * c
            | Answering k \<Rightarrow> k * c
            | Complete \<Rightarrow> file_size f
            | Rejected \<Rightarrow> 0)"
  using assms by (cases p) (simp_all add: in_phase_def awaiting_reply_def receiving_def)

lemma in_phase_meta:
  assumes "in_phase c code f p cfg"
  shows "fileMetaRef (receiver cfg) =
           (if p = Handshake \<or> p = MetadataSent then None else Some (metadata_of f))"
  using assms by (cases p) (simp_all add: in_phase_def awaiting_reply_def receiving_def)

lemma in_phase_index:
  assumes "in_phase c code f p cfg"
  shows "case p of Requesting k \<Rightarrow> k = 0 \<or> k * c < file_size f
         | Answering k \<Rightarrow> k = 0 \<or> k * c < file_size f
         | Complete \<Rightarrow> 0 < file_size f
         | Rejected \<Rightarrow> file_size f = 0
         | _ \<Rightarrow> True"
  using assms by (cases p) (simp_all add: in_phase_def receiving_def)

lemma progress_facts:
  assumes "in_phase c code f p cfg"
  shows "transferProgress (receiver cfg) = 100 \<longrightarrow> receivedBytesRef (receiver cfg) = file_size f"
    and "fileMetaRef (receiver cfg) \<noteq> None \<and> receivedBytesRef (receiver cfg) < file_size f \<longrightarrow>
         transferProgress (receiver cfg) =
           min 99 (percent (receivedBytesRef (receiver cfg)) (file_size f))"
    and "fileMetaRef (receiver cfg) \<noteq> None \<and> 0 < file_size f \<and>
         receivedBytesRef (receiver cfg) = file_size f \<longrightarrow> transferProgress (receiver cfg) = 100"
    and "0 \<le> transferProgress (receiver cfg)" and "transferProgress (receiver cfg) \<le> 100"
proof -
  note pr = in_phase_progress [OF assms] and bt = in_phase_bytes [OF assms]
    and me = in_phase_meta [OF assms] and ix = in_phase_index [OF assms]
  have receiving_case: "k = 0 \<or> k * c < file_size f \<Longrightarrow>
      (expected_progress (k * c) (file_size f) = 100 \<longrightarrow> k * c = file_size f) \<and>
      (k * c < file_size f \<longrightarrow>
         expected_progress (k * c) (file_size f) = min 99 (percent (k * c) (file_size f))) \<and>
      (0 < file_size f \<and> k * c = file_size f \<longrightarrow> expected_progress (k * c) (file_size f) = 100)"
    for k
    using expected_progress_lt_100 [of "k * c" "file_size f"]
      expected_progress_below [of "k * c" "file_size f"]
    by (cases "k = 0") simp_all
  have "(transferProgress (receiver cfg) = 100 \<longrightarrow> receivedBytesRef (receiver cfg) = file_size f) \<and>
    (fileMetaRef (receiver cfg) \<noteq> None \<and> receivedBytesRef (receiver cfg) < file_size f \<longrightarrow>
         transferProgress (receiver cfg) =
           min 99 (percent (receivedBytesRef (receiver cfg)) (file_size f))) \<and>
    (fileMetaRef (receiver cfg) \<noteq> None \<and> 0 < file_size f \<and>
         receivedBytesRef (receiver cfg) = file_size f \<longrightarrow> transferProgress (receiver cfg) = 100)"
  proof (cases p)
    case Handshake
    then show ?thesis using pr bt me by simp
  next
    case MetadataSent
    then show ?thesis using pr bt me by simp
  next
    case (Requesting k)
    with ix have "k = 0 \<or> k * c < file_size f" by simp
    from receiving_case [OF this] show ?thesis using Requesting pr bt by simp
  next
    case (Answering k)
    with ix have "k = 0 \<or> k * c < file_size f" by simp
    from receiving_case [OF this] show ?thesis using Answering pr bt by simp
  next
    case Complete
    then show ?thesis using pr bt by simp
  next
    case Rejected
    then show ?thesis using pr bt ix by simp
  qed
  then show "transferProgress (receiver cfg) = 100 \<longrightarrow> receivedBytesRef (receiver cfg) = file_size f"
    and "fileMetaRef (receiver cfg) \<noteq> None \<and> receivedBytesRef (receiver cfg) < file_size f \<longrightarrow>
         transferProgress (receiver cfg) =
           min 99 (percent (receivedBytesRef (receiver cfg)) (file_size f))"
    and "fileMetaRef (receiver cfg) \<noteq> None \<and> 0 < file_size f \<and>
         receivedBytesRef (receiver cfg) = file_size f \<longrightarrow> transferProgress (receiver cfg) = 100"
    by blast+
  show "0 \<le> transferProgress (receiver cfg)"
    unfolding pr using expected_progress_bounds(1) by (cases p) simp_all
  show "transferProgress (receiver cfg) \<le> 100"
    unfolding pr using expected_progress_bounds(2) by (cases p) simp_all
qed

lemma progress_step:
  assumes "in_phase c code f p cfg" and "0 < c"
  shows "transferProgress (receiver cfg) \<le>
         transferProgress (receiver (deliver c code code conn cfg))"
proof -
  note n = step_phase [OF assms, of conn]
  note pr = in_phase_progress [OF assms(1)] and pr' = in_phase_progress [OF n]
  note ix = in_phase_index [OF assms(1)]
  show ?thesis
  proof (cases p)
    case Handshake
    then show ?thesis using pr pr' by (simp add: next_phase_simps)
  next
    case MetadataSent
    then show ?thesis using pr pr' by (simp add: next_phase_simps expected_progress_def)
  next
    case (Requesting k)
    then show ?thesis using pr pr' by (simp add: next_phase_simps)
  next
    case (Answering k)
    have m: "expected_progress (k * c) (file_size f) \<le> expected_progress (Suc k * c) (file_size f)"
      by (rule expected_progress_mono) simp
    have z: "file_size f \<le> k * c \<Longrightarrow> expected_progress (k * c) (file_size f) = 0"
      using ix Answering by (auto simp: expected_progress_def)
    show ?thesis
      using pr pr' Answering m z expected_progress_bounds(2) [of "k * c" "file_size f"]
      by (auto simp: next_phase_simps)
  next
    case Complete
    then show ?thesis using pr pr' by (simp add: next_phase_simps)
  next
    case Rejected
    then show ?thesis using pr pr' by (simp add: next_phase_simps)
  qed
qed

lemma progress_run_mono:
  assumes "in_phase c code f Handshake cfg" and "0 < c"
  shows "transferProgress (receiver (run c code code conn n cfg)) \<le>
         transferProgress (receiver (run c code code conn (n + m) cfg))"
proof (induction m)
  case 0
  show ?case by simp
next
  case (Suc m)
  have "transferProgress (receiver (run c code code conn (n + m) cfg)) \<le>
        transferProgress (receiver (run c code code conn (Suc (n + m)) cfg))"
    unfolding run_Suc by (rule progress_step [OF run_phase [OF assms] assms(2)])
  with Suc show ?case by simp
qed

lemma percent_2_5: "percent 2 5 = 40"
proof -
  have "Math_round (js_mul (js_div 2 5) 100) = 40" by code_simp
  then show ?thesis by (simp add: percent_def)
qed

lemma percent_half_way: "percent 376832 655360 = 57"
proof -
  have "Math_round (js_mul (js_div 376832 655360) 100) = 57" by code_simp
  then show ?thesis by (simp add: percent_def)
qed

lemma exact_half_way:
  "round (100 * 376832 / 655360 :: rat) = 58" "round_half_even (100 * 376832 / 655360) = 58"
  "(100 * 376832 / 655360 :: rat) = 115 / 2"
proof -
  show e: "(100 * 376832 / 655360 :: rat) = 115 / 2" by simp
  have f: "\<lfloor>(115 :: rat) / 2\<rfloor> = 57" by (rule floor_unique) simp_all
  have "\<lfloor>(115 :: rat) / 2 + 1 / 2\<rfloor> = 58" by (rule floor_unique) simp_all
  then show "round (100 * 376832 / 655360 :: rat) = 58" unfolding e round_def by simp
  show "round_half_even (100 * 376832 / 655360) = 58"
    unfolding e round_half_even_def Let_def f by simp
qed

lemma run_requesting:
  assumes "fileToShareRef s = Some f" and "code \<noteq> []" and "0 < c"
    and "k = 0 \<or> k * c < file_size f"
  shows "in_phase c code f (Requesting k)
           (run c code code conn (2 + 2 * k) (transfer_start s code rconn a))"
  using run_phase [OF transfer_start_phase [OF assms(1,2)] assms(3),
      where conn = conn and n = "2 + 2 * k" and rconn1 = rconn and a1 = a]
  by (simp only: phase_at_requesting [OF assms(4)])

text \<open>
  Claim C6, as the code has it. At every point of a transfer run: the receiver's progress
  is 100 only if the bytes received equal the declared size; it does not decrease
  afterwards; while metadata is known and fewer bytes than the declared size have been
  received it is \<^verbatim>\<open>Math.round((received / size) * 100)\<close>, computed in double precision, clamped
  to 99; it is 100 once all bytes of a non-empty file have been received; it lies between
  0 and 100.
\<close>

theorem progress_over_run:
  assumes "fileToShareRef s = Some f" and "code \<noteq> []" and "0 < chunk_size"
  shows "(let r = receiver (run chunk_size code code conn n (transfer_start s code rconn a));
              r' = receiver (run chunk_size code code conn (n + m) (transfer_start s code rconn a))
          in (transferProgress r = 100 \<longrightarrow> receivedBytesRef r = file_size f) \<and>
             transferProgress r \<le> transferProgress r' \<and>
             (fileMetaRef r \<noteq> None \<and> receivedBytesRef r < file_size f \<longrightarrow>
                transferProgress r = min 99 (percent (receivedBytesRef r) (file_size f))) \<and>
             (fileMetaRef r \<noteq> None \<and> 0 < file_size f \<and> receivedBytesRef r = file_size f \<longrightarrow>
                transferProgress r = 100) \<and>
             0 \<le> transferProgress r \<and> transferProgress r \<le> 100)"
proof -
  note start = transfer_start_phase [OF assms(1,2), of chunk_size rconn a]
  note p = run_phase [OF start assms(3), where conn = conn and n = n]
  note f = progress_facts [OF p]
  note m = progress_run_mono [OF start assms(3), where conn = conn and n = n and m = m]
  from f m show ?thesis unfolding Let_def by blast
qed

theorem progress_over_run_witness:
  "(let s = initial_app\<lparr>mode := Send, fileToShareRef :=
              Some \<lparr>file_name = ''a.bin'', file_content = [1, 2, 3, 4, 5], file_type = []\<rparr>\<rparr>;
        a = initial_app\<lparr>mode := Receive\<rparr>;
        code = ''abc-def#1234'';
        r = receiver (run 2 code code 3 4 (transfer_start s code 7 a));
        r' = receiver (run 2 code code 3 8 (transfer_start s code 7 a))
    in code \<noteq> [] \<and> (0 :: nat) < 2 \<and>
       fileMetaRef r \<noteq> None \<and> receivedBytesRef r = 2 \<and> transferProgress r = 40 \<and>
       fileMetaRef r' \<noteq> None \<and> receivedBytesRef r' = 5 \<and> transferProgress r' = 100 \<and>
       transferProgress r \<le> transferProgress r')"
proof -
  let ?f = "\<lparr>file_name = ''a.bin'', file_content = [1, 2, 3, 4, 5 :: byte], file_type = []\<rparr>"
  let ?s = "initial_app\<lparr>mode := Send, fileToShareRef := Some ?f\<rparr>"
  let ?a = "initial_app\<lparr>mode := Receive\<rparr>"
  let ?c0 = "transfer_start ?s ''abc-def#1234'' 7 ?a"
  define r where "r = receiver (run 2 ''abc-def#1234'' ''abc-def#1234'' 3 4 ?c0)"
  define r' where "r' = receiver (run 2 ''abc-def#1234'' ''abc-def#1234'' 3 8 ?c0)"
  have h: "fileToShareRef ?s = Some ?f" "''abc-def#1234'' \<noteq> []" "(0 :: nat) < 2"
    by simp_all
  have sz: "file_size ?f = 5" by (simp add: file_size_def)
  have k: "(1 :: nat) = 0 \<or> 1 * 2 < file_size ?f" by (simp add: sz)
  have i4: "2 + 2 * 1 = (4 :: nat)" by simp
  have i8: "2 + 2 * ((file_size ?f + 2 - 1) div 2) + 0 = 8" by (simp add: sz)
  note p4 = run_requesting [OF h k, of 3 7 ?a, unfolded i4]
  have pos: "0 < file_size ?f" by (simp add: sz)
  note p8 = run_complete [OF h pos, of 3 0 7 ?a, unfolded i8]
  have b4: "receivedBytesRef r = 2" "fileMetaRef r \<noteq> None"
    using in_phase_bytes [OF p4] in_phase_meta [OF p4] by (simp_all add: r_def)
  have b8: "receivedBytesRef r' = 5" "fileMetaRef r' \<noteq> None"
    using in_phase_bytes [OF p8] in_phase_meta [OF p8] by (simp_all add: r'_def sz)
  have i: "4 + 4 = (8 :: nat)" by simp
  from progress_over_run [OF h, of 3 4 7 ?a 4] b4
  have A: "transferProgress r = 40" "transferProgress r \<le> transferProgress r'"
    unfolding Let_def i r_def [symmetric] r'_def [symmetric] by (simp_all add: sz percent_2_5)
  from progress_over_run [OF h, of 3 8 7 ?a 0] b8
  have B: "transferProgress r' = 100"
    unfolding Let_def r'_def [symmetric] by (simp add: sz)
  from h(2,3) b4 b8 A B show ?thesis
    unfolding Let_def r_def [symmetric] r'_def [symmetric] by blast
qed

text \<open>
  A file of 640 KiB after 23 chunks: exactly 57.5 per cent, which rounds to 58 whether a
  tie goes up or to the even neighbour; the double-precision product is
  57.49999999999999 and the progress shown is 57.
\<close>

theorem progress_over_run_counterexample:
  "(let s = initial_app\<lparr>mode := Send, fileToShareRef :=
              Some \<lparr>file_name = ''b.bin'', file_content = replicate 655360 0, file_type = []\<rparr>\<rparr>;
        a = initial_app\<lparr>mode := Receive\<rparr>;
        code = ''abc-def#1234'';
        r = receiver (run CHUNK_SIZE code code 3 48 (transfer_start s code 7 a))
    in fileMetaRef r \<noteq> None \<and> receivedBytesRef r = 376832 \<and> transferProgress r = 57 \<and>
       round (100 * 376832 / 655360 :: rat) = 58 \<and>
       round_half_even (100 * 376832 / 655360) = 58)"
proof -
  let ?f = "\<lparr>file_name = ''b.bin'', file_content = replicate 655360 (0 :: byte), file_type = []\<rparr>"
  let ?s = "initial_app\<lparr>mode := Send, fileToShareRef := Some ?f\<rparr>"
  let ?a = "initial_app\<lparr>mode := Receive\<rparr>"
  have h: "fileToShareRef ?s = Some ?f" "''abc-def#1234'' \<noteq> []" "0 < CHUNK_SIZE"
    by (simp_all add: CHUNK_SIZE_def)
  have sz: "file_size ?f = 655360" by (simp add: file_size_def)
  have k: "(23 :: nat) = 0 \<or> 23 * CHUNK_SIZE < file_size ?f" by (simp add: sz CHUNK_SIZE_def)
  have i: "2 + 2 * 23 = (48 :: nat)" by simp
  have kc: "23 * CHUNK_SIZE = 376832" by (simp add: CHUNK_SIZE_def)
  note p = run_requesting [OF h k, of 3 7 ?a, unfolded i]
  have "expected_progress 376832 655360 = 57"
    by (simp add: expected_progress_def percent_half_way)
  with in_phase_bytes [OF p] in_phase_meta [OF p] in_phase_progress [OF p] exact_half_way(1,2)
  show ?thesis unfolding Let_def by (simp add: kc sz)
qed

section \<open>The offsets the receiver requests\<close>

lemma chunk_total:
  fixes c s :: nat
  assumes "0 < c"
  shows "(max 1 ((s + c - 1) div c) - 1) * c \<le> s" and "s \<le> max 1 ((s + c - 1) div c) * c"
    and "0 < s \<Longrightarrow> max 1 ((s + c - 1) div c) = (s + c - 1) div c"
    and "s = 0 \<Longrightarrow> max 1 ((s + c - 1) div c) = 1"
proof -
  show z: "s = 0 \<Longrightarrow> max 1 ((s + c - 1) div c) = 1" using assms by simp
  show p: "0 < s \<Longrightarrow> max 1 ((s + c - 1) div c) = (s + c - 1) div c"
    using chunk_count_bounds(3) [OF assms, of s] by simp
  show "(max 1 ((s + c - 1) div c) - 1) * c \<le> s"
  proof (cases "s = 0")
    case True
    then show ?thesis using z by simp
  next
    case False
    then have "0 < s" by simp
    with p chunk_count_bounds(1) [OF assms this] show ?thesis by simp
  qed
  show "s \<le> max 1 ((s + c - 1) div c) * c"
  proof (cases "s = 0")
    case True
    then show ?thesis by simp
  next
    case False
    then have "0 < s" by simp
    with p chunk_count_bounds(2) [OF assms this] show ?thesis by simp
  qed
qed

lemma offsets_increasing:
  assumes "0 < (c :: nat)"
  shows "sorted_wrt (<) (map (\<lambda>i. i * c) [0..<n])" and "distinct (map (\<lambda>i. i * c) [0..<n])"
proof -
  have "sorted_wrt (\<lambda>x y. x * c < y * c) [0..<n]"
    using assms by (intro sorted_wrt_mono_rel [OF _ sorted_wrt_upt]) simp
  then show "sorted_wrt (<) (map (\<lambda>i. i * c) [0..<n])" by (simp add: sorted_wrt_map)
  have "inj_on (\<lambda>i. i * c) (set [0..<n])" using assms by (intro inj_onI) simp
  then show "distinct (map (\<lambda>i. i * c) [0..<n])" by (simp add: distinct_map)
qed

lemma offsets_ranges:
  fixes c :: nat
  assumes "0 < c" and N_def: "N = max 1 ((file_size f + c - 1) div c)"
  shows "i < N \<Longrightarrow> i * c \<le> file_size f"
    and "Suc i < N \<Longrightarrow> length (chunk_at c f i) = c"
    and "(N - 1) * c + length (chunk_at c f (N - 1)) = file_size f"
proof -
  note t = chunk_total(1,2) [OF assms(1), of "file_size f", folded N_def]
  have n: "1 \<le> N" by (simp add: N_def)
  show le: "i < N \<Longrightarrow> i * c \<le> file_size f" for i
  proof -
    assume "i < N"
    then have "i \<le> N - 1" by simp
    then have "i * c \<le> (N - 1) * c" by (rule mult_le_mono1)
    with t(1) show ?thesis by linarith
  qed
  show "Suc i < N \<Longrightarrow> length (chunk_at c f i) = c"
  proof -
    assume "Suc i < N"
    from le [OF this] show ?thesis by (simp add: length_chunk_at)
  qed
  have "N * c = (N - 1) * c + c" using n by (simp add: diff_mult_distrib)
  with t show "(N - 1) * c + length (chunk_at c f (N - 1)) = file_size f"
    by (simp add: length_chunk_at)
qed

lemma in_phase_offsets:
  assumes "in_phase c code f p cfg" and "0 < c"
  shows "\<exists>j \<le> max 1 ((file_size f + c - 1) div c).
           requested_offsets cfg = map (\<lambda>i. i * c) [0..<j]"
proof -
  let ?N = "max 1 ((file_size f + c - 1) div c)"
  have receiving_case: "receiving c code f k cfg \<Longrightarrow> ?thesis" for k
  proof -
    assume r: "receiving c code f k cfg"
    then have o: "requested_offsets cfg = map (\<lambda>i. i * c) [0..<Suc k]"
      by (intro requested_offsets_log) (simp add: receiving_def)
    from r have "k = 0 \<or> k * c < file_size f" by (simp add: receiving_def)
    then have "Suc k \<le> ?N"
    proof
      assume "k = 0"
      then show ?thesis by simp
    next
      assume lt: "k * c < file_size f"
      with chunk_total(2) [OF assms(2), of "file_size f"] have "k * c < ?N * c"
        by linarith
      then have "k < ?N" using assms(2) by (simp only: mult_less_cancel2)
      then show ?thesis by simp
    qed
    with o show ?thesis by blast
  qed
  have awaiting_case: "awaiting_reply cfg \<Longrightarrow> ?thesis"
  proof -
    assume "awaiting_reply cfg"
    then have "requested_offsets cfg = map (\<lambda>i. i * c) [0..<0]"
      by (simp add: awaiting_reply_def requested_offsets_def)
    then show ?thesis by blast
  qed
  show ?thesis
  proof (cases p)
    case Handshake
    with assms(1) awaiting_case show ?thesis by (simp add: in_phase_def)
  next
    case MetadataSent
    with assms(1) awaiting_case show ?thesis by (simp add: in_phase_def)
  next
    case (Requesting k)
    with assms(1) receiving_case [of k] show ?thesis by (simp add: in_phase_def)
  next
    case (Answering k)
    with assms(1) receiving_case [of k] show ?thesis by (simp add: in_phase_def)
  next
    case Complete
    with assms(1) have d: "requested_offsets cfg =
        map (\<lambda>i. i * c) [0..<(file_size f + c - 1) div c]" and "0 < file_size f"
      by (simp_all add: in_phase_CompleteD)
    with chunk_total(3) [OF assms(2), of "file_size f"] show ?thesis by auto
  next
    case Rejected
    with assms(1) have "requested_offsets cfg = map (\<lambda>i. i * c) [0..<1]"
      by (simp add: in_phase_RejectedD)
    moreover have "1 \<le> ?N" by simp
    ultimately show ?thesis by blast
  qed
qed

lemma in_phase_window:
  assumes "in_phase c code f p cfg"
  shows "length (to_sender cfg) + length (to_receiver cfg) \<le> 1"
    and "RequestChunk offset \<in> set (to_sender cfg) \<Longrightarrow>
         offset = receivedBytesRef (receiver cfg) \<and>
         offset = length (concat (receivedChunksRef (receiver cfg)))"
proof -
  show "length (to_sender cfg) + length (to_receiver cfg) \<le> 1"
    using assms by (cases p) (simp_all add: in_phase_def)
  assume a: "RequestChunk offset \<in> set (to_sender cfg)"
  show "offset = receivedBytesRef (receiver cfg) \<and>
        offset = length (concat (receivedChunksRef (receiver cfg)))"
  proof (cases p)
    case (Requesting k)
    with assms a have o: "offset = k * c" and r: "receiving c code f k cfg"
      by (simp_all add: in_phase_def)
    from r have b: "receivedBytesRef (receiver cfg) = k * c"
      and ch: "receivedChunksRef (receiver cfg) = map (chunk_at c f) [0..<k]"
      and k: "k = 0 \<or> k * c < file_size f"
      by (simp_all add: receiving_def)
    have "length (concat (receivedChunksRef (receiver cfg))) = min (k * c) (file_size f)"
      unfolding ch concat_chunks by (simp add: file_size_def min.commute)
    with k have "length (concat (receivedChunksRef (receiver cfg))) = k * c" by auto
    with o b show ?thesis by simp
  qed (use assms a in \<open>simp_all add: in_phase_def\<close>)
qed

lemma run_final:
  assumes "fileToShareRef s = Some f" and "code \<noteq> []" and "0 < c"
  shows "quiescent (run c code code conn (2 + 2 * max 1 ((file_size f + c - 1) div c) + m)
                      (transfer_start s code rconn a))"
    and "requested_offsets (run c code code conn (2 + 2 * max 1 ((file_size f + c - 1) div c) + m)
                      (transfer_start s code rconn a)) =
           map (\<lambda>i. i * c) [0..<max 1 ((file_size f + c - 1) div c)]"
proof -
  let ?N = "max 1 ((file_size f + c - 1) div c)"
  let ?final = "run c code code conn (2 + 2 * ?N + m) (transfer_start s code rconn a)"
  have "quiescent ?final \<and> requested_offsets ?final = map (\<lambda>i. i * c) [0..<?N]"
  proof (cases "file_size f = 0")
    case True
    have n: "?N = 1" by (rule chunk_total(4) [OF assms(3) True])
    have i: "2 + 2 * 1 + m = 4 + m" by simp
    note d = in_phase_RejectedD [OF run_rejected [OF assms True, of conn m rconn a]]
    show ?thesis unfolding n i using d(1,2) by simp
  next
    case False
    then have pos: "0 < file_size f" by simp
    have n: "?N = (file_size f + c - 1) div c" by (rule chunk_total(3) [OF assms(3) pos])
    note d = in_phase_CompleteD [OF run_complete [OF assms pos, of conn m rconn a]]
    show ?thesis unfolding n using d(1,8) by simp
  qed
  then show "quiescent ?final" and "requested_offsets ?final = map (\<lambda>i. i * c) [0..<?N]"
    by blast+
qed

text \<open>
  Claim C3. For every file size and every positive chunk size, with \<open>N\<close> the number of
  chunks (1 for an empty file): when the run has come to rest the offsets requested are
  \<open>0, C, 2C, \<dots>, (N - 1) C\<close>, strictly increasing, without repetition, none beyond the
  size; each offset is the previous one plus the length of the previous chunk, and the
  last range ends at the size. At every point of the run at most one message is in flight,
  a chunk request in flight asks for exactly the number of bytes appended so far, and the
  offsets requested so far are an initial part of the sequence.
\<close>

theorem requested_offsets_sequence:
  assumes "fileToShareRef s = Some f" and "code \<noteq> []" and "0 < chunk_size"
  shows "(let N = max 1 ((file_size f + chunk_size - 1) div chunk_size);
              final = run chunk_size code code conn (2 + 2 * N + m) (transfer_start s code rconn a);
              offs = requested_offsets final;
              cfg = run chunk_size code code conn n (transfer_start s code rconn a)
          in quiescent final \<and>
             offs = map (\<lambda>i. i * chunk_size) [0..<N] \<and>
             sorted_wrt (<) offs \<and> distinct offs \<and>
             (x \<in> set offs \<longrightarrow> x \<le> file_size f) \<and>
             (Suc i < N \<longrightarrow> offs ! Suc i = offs ! i + length (chunk_at chunk_size f i)) \<and>
             offs ! (N - 1) + length (chunk_at chunk_size f (N - 1)) = file_size f \<and>
             length (to_sender cfg) + length (to_receiver cfg) \<le> 1 \<and>
             (RequestChunk y \<in> set (to_sender cfg) \<longrightarrow>
                y = receivedBytesRef (receiver cfg) \<and>
                y = length (concat (receivedChunksRef (receiver cfg)))) \<and>
             (\<exists>j \<le> N. requested_offsets cfg = map (\<lambda>i. i * chunk_size) [0..<j]))"
proof -
  define N where "N = max 1 ((file_size f + chunk_size - 1) div chunk_size)"
  define final where
    "final = run chunk_size code code conn (2 + 2 * N + m) (transfer_start s code rconn a)"
  define offs where "offs = requested_offsets final"
  define cfg where "cfg = run chunk_size code code conn n (transfer_start s code rconn a)"
  have n1: "1 \<le> N" by (simp add: N_def)
  note fin = run_final [OF assms, of conn m rconn a, folded N_def, folded final_def]
  have offs: "offs = map (\<lambda>i. i * chunk_size) [0..<N]" unfolding offs_def by (rule fin(2))
  note rg = offsets_ranges [OF assms(3) N_def]
  have 1: "sorted_wrt (<) offs" "distinct offs"
    unfolding offs by (rule offsets_increasing [OF assms(3)])+
  have 2: "x \<in> set offs \<longrightarrow> x \<le> file_size f"
    unfolding offs using rg(1) by auto
  have 3: "Suc i < N \<longrightarrow> offs ! Suc i = offs ! i + length (chunk_at chunk_size f i)"
    unfolding offs using rg(2) [of i] by auto
  have 4: "offs ! (N - 1) + length (chunk_at chunk_size f (N - 1)) = file_size f"
    unfolding offs using rg(3) n1 by simp
  have p: "in_phase chunk_size code f (phase_at chunk_size (file_size f) n) cfg"
    unfolding cfg_def by (rule run_phase [OF transfer_start_phase [OF assms(1,2)] assms(3)])
  note w = in_phase_window [OF p]
  have 5: "length (to_sender cfg) + length (to_receiver cfg) \<le> 1" by (rule w(1))
  have 6: "RequestChunk y \<in> set (to_sender cfg) \<longrightarrow>
                y = receivedBytesRef (receiver cfg) \<and>
                y = length (concat (receivedChunksRef (receiver cfg)))"
    using w(2) by blast
  have 7: "\<exists>j \<le> N. requested_offsets cfg = map (\<lambda>i. i * chunk_size) [0..<j]"
    unfolding N_def by (rule in_phase_offsets [OF p assms(3)])
  from fin(1) offs 1 2 3 4 5 6 7 show ?thesis
    unfolding Let_def N_def [symmetric] final_def [symmetric] offs_def [symmetric]
      cfg_def [symmetric]
    by blast
qed

theorem requested_offsets_sequence_witness:
  "(let s = initial_app\<lparr>mode := Send, fileToShareRef :=
              Some \<lparr>file_name = ''a.bin'', file_content = [1, 2, 3, 4, 5], file_type = []\<rparr>\<rparr>;
        a = initial_app\<lparr>mode := Receive\<rparr>;
        code = ''abc-def#1234'';
        final = run 2 code code 3 8 (transfer_start s code 7 a);
        cfg = run 2 code code 3 4 (transfer_start s code 7 a)
    in code \<noteq> [] \<and> (0 :: nat) < 2 \<and>
       quiescent final \<and> requested_offsets final = [0, 2, 4] \<and>
       (4 :: nat) \<in> set (requested_offsets final) \<and> (4 :: nat) \<le> 5 \<and>
       requested_offsets final ! 1 = requested_offsets final ! 0 + 2 \<and>
       RequestChunk 2 \<in> set (to_sender cfg) \<and> receivedBytesRef (receiver cfg) = 2 \<and>
       length (concat (receivedChunksRef (receiver cfg))) = 2)"
proof -
  let ?f = "\<lparr>file_name = ''a.bin'', file_content = [1, 2, 3, 4, 5 :: byte], file_type = []\<rparr>"
  let ?s = "initial_app\<lparr>mode := Send, fileToShareRef := Some ?f\<rparr>"
  let ?a = "initial_app\<lparr>mode := Receive\<rparr>"
  let ?c0 = "transfer_start ?s ''abc-def#1234'' 7 ?a"
  define final where "final = run 2 ''abc-def#1234'' ''abc-def#1234'' 3 8 ?c0"
  define cfg where "cfg = run 2 ''abc-def#1234'' ''abc-def#1234'' 3 4 ?c0"
  have h: "fileToShareRef ?s = Some ?f" "''abc-def#1234'' \<noteq> []" "(0 :: nat) < 2"
    by simp_all
  have sz: "file_size ?f = 5" by (simp add: file_size_def)
  have N: "max 1 ((file_size ?f + 2 - 1) div 2) = (3 :: nat)" by (simp add: sz)
  have i8: "2 + 2 * (3 :: nat) + 0 = 8" by simp
  have l0: "length (chunk_at 2 ?f 0) = 2" by (simp add: length_chunk_at sz)
  have up: "map (\<lambda>i. i * 2) [0..<3 :: nat] = [0, 2, 4]" by (simp add: upt_conv_Cons)
  have k: "(1 :: nat) = 0 \<or> 1 * 2 < file_size ?f" by (simp add: sz)
  have i4: "2 + 2 * 1 = (4 :: nat)" by simp
  note p4 = run_requesting [OF h k, of 3 7 ?a, unfolded i4, folded cfg_def]
  have q: "RequestChunk 2 \<in> set (to_sender cfg)"
    using p4 by (simp add: in_phase_def)
  from requested_offsets_sequence [OF h, where conn = 3 and m = 0 and rconn = 7 and a = ?a
      and n = 4 and x = 4 and i = 0 and y = 2]
  have T: "quiescent final" "requested_offsets final = [0, 2, 4]"
    "4 \<in> set (requested_offsets final) \<longrightarrow> (4 :: nat) \<le> file_size ?f"
    "Suc 0 < (3 :: nat) \<longrightarrow> requested_offsets final ! Suc 0 =
       requested_offsets final ! 0 + length (chunk_at 2 ?f 0)"
    "RequestChunk 2 \<in> set (to_sender cfg) \<longrightarrow>
       2 = receivedBytesRef (receiver cfg) \<and> 2 = length (concat (receivedChunksRef (receiver cfg)))"
    unfolding Let_def N i8 final_def [symmetric] cfg_def [symmetric] up by blast+
  have m4: "(4 :: nat) \<in> set (requested_offsets final)" by (simp add: T(2))
  from T(4) l0 have g: "requested_offsets final ! 1 = requested_offsets final ! 0 + 2" by simp
  from T(5) q have b: "receivedBytesRef (receiver cfg) = 2"
    "length (concat (receivedChunksRef (receiver cfg))) = 2" by simp_all
  from h(2,3) T(1,2) m4 g q b show ?thesis
    unfolding Let_def final_def [symmetric] cfg_def [symmetric] by simp
qed

end
